theory Spec2Isabelle
  imports Main "HOL-Library.Word" "HOL-Library.Sublist"
begin

section \<open>Strings and the platform's Unicode services\<close>

text \<open>
  A JavaScript string is a sequence of UTF-16 code units. \<open>length\<close>, indexing, \<open>===\<close>,
  \<open>includes\<close> and \<open>startsWith\<close> work on code units; a regular expression with the
  \<open>u\<close> flag works on code points (a high surrogate followed by a low surrogate is one
  code point).
\<close>

type_synonym codeunit = "16 word"
type_synonym jsstring = "codeunit list"

text \<open>
  \<open>src/src/App.tsx\<close> calls four services of the JavaScript engine whose results are
  fixed by the Unicode character database and not by this repository:
  \<open>String.prototype.trim\<close>, \<open>String.prototype.normalize("NFKD")\<close>, the property
  escape \<open>\p{Diacritic}\<close> and \<open>String.prototype.toLowerCase\<close>. They are the fields of
  a record that every function of the model takes as its first argument, so that a
  theorem stated for all platforms holds whatever the tables of the engine are.
  The fields \<open>nfd\<close> (canonical decomposition) and \<open>Mark\<close> (general category M, the
  combining marks) are not called by the source; they are what the specification's
  description of \<open>normalize\<close> speaks about.
\<close>

record platform =
  trim :: "jsstring \<Rightarrow> jsstring"
  nfkd :: "jsstring \<Rightarrow> jsstring"
  Diacritic :: "nat \<Rightarrow> bool"
  toLowerCase :: "jsstring \<Rightarrow> jsstring"
  nfd :: "jsstring \<Rightarrow> jsstring"
  Mark :: "nat \<Rightarrow> bool"

subsection \<open>Code points of a string\<close>

definition is_high :: "codeunit \<Rightarrow> bool" where
  "is_high c = (0xD800 \<le> c \<and> c \<le> 0xDBFF)"

definition is_low :: "codeunit \<Rightarrow> bool" where
  "is_low c = (0xDC00 \<le> c \<and> c \<le> 0xDFFF)"

text \<open>The code points a \<open>u\<close>-flag regular expression sees; a lone surrogate is a code
  point of its own.\<close>

fun code_points :: "jsstring \<Rightarrow> nat list" where
  "code_points (h # l # rest) =
     (if is_high h \<and> is_low l
      then (0x10000 + (unat h - 0xD800) * 0x400 + (unat l - 0xDC00)) # code_points rest
      else unat h # code_points (l # rest))"
| "code_points [c] = [unat c]"
| "code_points [] = []"

definition utf16 :: "nat \<Rightarrow> jsstring" where
  "utf16 cp =
     (if cp < 0x10000 then [of_nat cp]
      else [of_nat (0xD800 + (cp - 0x10000) div 0x400),
            of_nat (0xDC00 + (cp - 0x10000) mod 0x400)])"

text \<open>\<open>s.replace(/\p{...}/gu, "")\<close>: every code point with the property is removed.\<close>

definition replace_all_u :: "(nat \<Rightarrow> bool) \<Rightarrow> jsstring \<Rightarrow> jsstring" where
  "replace_all_u p s = concat (map utf16 (filter (\<lambda>cp. \<not> p cp) (code_points s)))"

subsection \<open>\<open>includes\<close> and \<open>startsWith\<close>\<close>

text \<open>\<open>s.startsWith(t)\<close> is \<^const>\<open>prefix\<close> \<open>t s\<close>; \<open>s.includes(t)\<close> holds when \<open>t\<close>
  starts at some position of \<open>s\<close>.\<close>

fun includes_str :: "'a list \<Rightarrow> 'a list \<Rightarrow> bool" where
  "includes_str [] t = (t = [])"
| "includes_str (x # xs) t = (prefix t (x # xs) \<or> includes_str xs t)"

section \<open>Data model\<close>

text \<open>\<open>type Entry = { begriff; definition; beispiel; quellen }\<close> (App.tsx, line 27).\<close>

record entry =
  begriff :: jsstring
  definition_text :: jsstring
  beispiel :: jsstring
  quellen :: "jsstring list"

section \<open>Utilities (App.tsx, lines 31 to 54)\<close>

text \<open>
  \<open>normalize(str)\<close>, here \<open>normalize_str\<close>. For a string argument
  \<open>(str || "").toString()\<close> is the argument itself (the empty string is falsy and is
  replaced by the empty string).
\<close>

definition normalize_str :: "platform \<Rightarrow> jsstring \<Rightarrow> jsstring" where
  "normalize_str P str = toLowerCase P (replace_all_u (Diacritic P) (nfkd P str))"

text \<open>The same function on a value that may be \<open>null\<close> or \<open>undefined\<close> (\<open>None\<close>):
  \<open>str || ""\<close> is then the empty string.\<close>

definition normalize_nullable :: "platform \<Rightarrow> jsstring option \<Rightarrow> jsstring" where
  "normalize_nullable P v = normalize_str P (case v of None \<Rightarrow> [] | Some str \<Rightarrow> str)"

text \<open>
  \<open>levenshtein\<close>: the table \<open>dp\<close> is a list of \<open>m + 1\<close> rows of \<open>n + 1\<close> cells.
  \<open>dp[i][j] = v\<close> is \<open>set_cell\<close>; every read and write of the source is inside the
  table (\<open>i \<le> m\<close>, \<open>j \<le> n\<close>), and the string reads \<open>a[i - 1]\<close>, \<open>b[j - 1]\<close> are inside
  the strings.
\<close>

definition set_cell :: "nat list list \<Rightarrow> nat \<Rightarrow> nat \<Rightarrow> nat \<Rightarrow> nat list list" where
  "set_cell dp i j v = dp[i := (dp ! i)[j := v]]"

definition lev_cell :: "'a list \<Rightarrow> 'a list \<Rightarrow> nat \<Rightarrow> nat \<Rightarrow> nat list list \<Rightarrow> nat list list" where
  "lev_cell a b i j dp =
     (let cost = (if a ! (i - 1) = b ! (j - 1) then 0 else 1)
      in set_cell dp i j
           (min (dp ! (i - 1) ! j + 1) (min (dp ! i ! (j - 1) + 1) (dp ! (i - 1) ! (j - 1) + cost))))"

definition lev_table :: "'a list \<Rightarrow> 'a list \<Rightarrow> nat list list" where
  "lev_table a b =
     (let m = length a; n = length b;
          dp0 = replicate (m + 1) (replicate (n + 1) 0);
          dp1 = fold (\<lambda>i dp. set_cell dp i 0 i) [0..<m + 1] dp0;
          dp2 = fold (\<lambda>j dp. set_cell dp 0 j j) [0..<n + 1] dp1
      in fold (\<lambda>i dp. fold (lev_cell a b i) [1..<n + 1] dp) [1..<m + 1] dp2)"

definition lev_dist :: "'a list \<Rightarrow> 'a list \<Rightarrow> nat" where
  "lev_dist a b =
     (let m = length a; n = length b
      in if m = 0 then n else if n = 0 then m else lev_table a b ! m ! n)"

text \<open>A table of \<open>m + 1\<close> rows of \<open>n + 1\<close> cells.\<close>

definition shape :: "nat \<Rightarrow> nat \<Rightarrow> nat list list \<Rightarrow> bool" where
  "shape m n dp \<longleftrightarrow> length dp = Suc m \<and> (\<forall>i\<le>m. length (dp ! i) = Suc n)"

definition levenshtein :: "platform \<Rightarrow> jsstring \<Rightarrow> jsstring \<Rightarrow> nat" where
  "levenshtein P a b = lev_dist (normalize_str P a) (normalize_str P b)"

section \<open>Search (App.tsx, lines 280 to 296)\<close>

text \<open>
  \<open>results\<close> as a function of what the memo depends on. \<open>Array.prototype.sort\<close> is
  stable, as is \<^const>\<open>sort_key\<close>. An empty string and an empty array are falsy
  (\<open>!q\<close>, \<open>exact.length\<close>).
\<close>

definition search :: "platform \<Rightarrow> jsstring \<Rightarrow> entry list \<Rightarrow> bool \<Rightarrow> int \<Rightarrow> entry list" where
  "search P query entries fuzzy fuzzyTol =
     (let q = trim P query in
      if q = [] then entries
      else
        let nq = normalize_str P q;
            exact = filter (\<lambda>e. normalize_str P (begriff e) = nq) entries
        in if exact \<noteq> [] then exact
           else
             let partial = filter (\<lambda>e. includes_str (normalize_str P (begriff e)) nq) entries
             in if partial \<noteq> [] then partial
                else if fuzzy then
                  map fst (sort_key snd
                    (filter (\<lambda>x. int (snd x) \<le> fuzzyTol)
                      (map (\<lambda>e. (e, levenshtein P nq (begriff e))) entries)))
                else [])"

section \<open>Autocomplete (\<open>suggestions\<close>, the memo next to \<open>results\<close>)\<close>

text \<open>The query is normalized without being trimmed; an empty normalized query gives
  no suggestion. \<open>slice(0, 8)\<close> keeps the first eight.\<close>

definition suggestions :: "platform \<Rightarrow> jsstring \<Rightarrow> entry list \<Rightarrow> entry list" where
  "suggestions P query entries =
     (let nq = normalize_str P query in
      if nq = [] then []
      else
        let starts = filter (\<lambda>e. prefix nq (normalize_str P (begriff e))) entries;
            rest = filter (\<lambda>e. \<not> prefix nq (normalize_str P (begriff e))
                                \<and> includes_str (normalize_str P (begriff e)) nq) entries
        in take 8 (starts @ rest))"

section \<open>Changing the collection\<close>

text \<open>\<open>Array.prototype.findIndex\<close>: the first index whose element satisfies the
  predicate, \<open>-1\<close> when there is none.\<close>

fun findIndex :: "('a \<Rightarrow> bool) \<Rightarrow> 'a list \<Rightarrow> int" where
  "findIndex p [] = -1"
| "findIndex p (x # xs) =
     (if p x then 0 else (let i = findIndex p xs in if i < 0 then -1 else i + 1))"

text \<open>
  \<open>copy[k] = v\<close> for an integer \<open>k\<close>. Below zero the assignment creates a property
  named \<open>"-1"\<close> and leaves the elements as they are; at \<open>length\<close> it appends; beyond
  \<open>length\<close> JavaScript leaves holes, which a list of entries cannot hold: that case
  is \<open>None\<close>.
\<close>

definition array_store :: "'a list \<Rightarrow> int \<Rightarrow> 'a \<Rightarrow> 'a list option" where
  "array_store xs k v =
     (if k < 0 then Some xs
      else if nat k < length xs then Some (xs[nat k := v])
      else if nat k = length xs then Some (xs @ [v])
      else None)"

text \<open>The editor's state that \<open>saveEditor\<close> reads (App.tsx, lines 225 to 233).\<close>

datatype editor_mode = Create | Edit

record editor =
  editorMode :: editor_mode
  editorIndex :: "int option"
  formBegriff :: jsstring
  formDef :: jsstring
  formBsp :: jsstring
  formQ :: "jsstring list"

text \<open>\<open>saveEditor\<close> (App.tsx, lines 367 to 389): the new value of \<open>entries\<close>. With an
  empty term the function alerts and returns before \<open>setEntries\<close>.\<close>

definition saveEditor :: "platform \<Rightarrow> editor \<Rightarrow> entry list \<Rightarrow> entry list option" where
  "saveEditor P ed prev =
     (let trimmed = \<lparr>begriff = trim P (formBegriff ed), definition_text = trim P (formDef ed),
                     beispiel = trim P (formBsp ed), quellen = formQ ed\<rparr>
      in if begriff trimmed = [] then Some prev
         else
           (case (editorMode ed, editorIndex ed) of
              (Edit, Some k) \<Rightarrow> array_store prev k trimmed
            | _ \<Rightarrow>
                (let i = findIndex (\<lambda>x. normalize_str P (begriff x) = normalize_str P (begriff trimmed)) prev
                 in if i \<ge> 0 then Some (prev[nat i := trimmed]) else Some (prev @ [trimmed]))))"

text \<open>The step that the create branch of \<open>saveEditor\<close> and the import merge share:
  replace the first entry with the same canonical term, or append.\<close>

definition upsert :: "platform \<Rightarrow> entry \<Rightarrow> entry list \<Rightarrow> entry list" where
  "upsert P p xs =
     (let i = findIndex (\<lambda>x. normalize_str P (begriff x) = normalize_str P (begriff p)) xs
      in if i \<ge> 0 then xs[nat i := p] else xs @ [p])"

text \<open>The merge of \<open>importCSVFromFile\<close> (App.tsx, lines 331 to 339): \<open>parsed\<close> are the
  rows of the file, \<open>prev\<close> the collection.\<close>

definition merge_row :: "platform \<Rightarrow> entry \<Rightarrow> entry list \<Rightarrow> entry list" where
  "merge_row P p merged =
     (if trim P (begriff p) = [] then merged
      else
        (let i = findIndex (\<lambda>x. normalize_str P (begriff x) = normalize_str P (begriff p)) merged
         in if i \<ge> 0 then merged[nat i := p] else merged @ [p]))"

definition import_merge :: "platform \<Rightarrow> entry list \<Rightarrow> entry list \<Rightarrow> entry list" where
  "import_merge P parsed prev = fold (merge_row P) parsed prev"

text \<open>Deleting the selected entry in the detail dialog (App.tsx, line 640).\<close>

definition delete_selected :: "entry \<Rightarrow> entry list \<Rightarrow> entry list" where
  "delete_selected selected prev = filter (\<lambda>e. begriff e \<noteq> begriff selected) prev"

text \<open>\<open>removeEntry\<close> of the first version of the application
  (\<open>src/unnamed/part_000\<close>, lines 119 to 122).\<close>

definition removeEntry :: "platform \<Rightarrow> jsstring \<Rightarrow> entry list \<Rightarrow> entry list" where
  "removeEntry P begr prev = filter (\<lambda>p. normalize_str P (begriff p) \<noteq> normalize_str P begr) prev"

text \<open>The invariant of the data model: no two entries have the same canonical term.\<close>

definition unique_terms :: "platform \<Rightarrow> entry list \<Rightarrow> bool" where
  "unique_terms P es = distinct (map (\<lambda>e. normalize_str P (begriff e)) es)"

section \<open>What the specification describes\<close>

text \<open>
  The specification's \<open>normalize\<close>: \<open>null\<close> and \<open>undefined\<close> give the empty string;
  otherwise canonical decomposition, then every combining mark is removed, then the
  result is lower-cased.
\<close>

definition normalize_spec :: "platform \<Rightarrow> jsstring option \<Rightarrow> jsstring" where
  "normalize_spec P v =
     (case v of None \<Rightarrow> []
      | Some str \<Rightarrow> toLowerCase P (replace_all_u (Mark P) (nfd P str)))"

text \<open>
  The specification's edit distance, as the recurrence of the table: \<open>lev_rec a b i j\<close>
  is the cell in row \<open>i\<close> and column \<open>j\<close>; cost 0 for matching characters, 1 otherwise.
\<close>

fun lev_rec :: "'a list \<Rightarrow> 'a list \<Rightarrow> nat \<Rightarrow> nat \<Rightarrow> nat" where
  "lev_rec a b 0 j = j"
| "lev_rec a b (Suc i) 0 = Suc i"
| "lev_rec a b (Suc i) (Suc j) =
     min (lev_rec a b i (Suc j) + 1)
       (min (lev_rec a b (Suc i) j + 1)
            (lev_rec a b i j + (if a ! i = b ! j then 0 else 1)))"

definition edit_distance :: "'a list \<Rightarrow> 'a list \<Rightarrow> nat" where
  "edit_distance a b = lev_rec a b (length a) (length b)"

text \<open>
  Edit distance as the glossary defines it: \<open>edits k a b\<close> holds when \<open>a\<close> is turned
  into \<open>b\<close> by an alignment with \<open>k\<close> single-character insertions, deletions or
  substitutions (the alignment grows at its right end, as the table does).
\<close>

inductive edits :: "nat \<Rightarrow> 'a list \<Rightarrow> 'a list \<Rightarrow> bool" where
  edits_Nil: "edits 0 [] []"
| edits_delete: "edits k xs ys \<Longrightarrow> edits (Suc k) (xs @ [x]) ys"
| edits_insert: "edits k xs ys \<Longrightarrow> edits (Suc k) xs (ys @ [y])"
| edits_keep: "edits k xs ys \<Longrightarrow> edits k (xs @ [x]) (ys @ [x])"
| edits_substitute: "edits k xs ys \<Longrightarrow> edits (Suc k) (xs @ [x]) (ys @ [y])"

text \<open>The fuzzy tier as the specification words it: the distance is taken between
  the normalized query and the normalized term.\<close>

definition fuzzy_spec :: "platform \<Rightarrow> jsstring \<Rightarrow> entry list \<Rightarrow> int \<Rightarrow> entry list" where
  "fuzzy_spec P query entries fuzzyTol =
     (let d = (\<lambda>e. edit_distance (normalize_str P (trim P query)) (normalize_str P (begriff e)))
      in sort_key d (filter (\<lambda>e. int (d e) \<le> fuzzyTol) entries))"

text \<open>The field \<open>d\<close> that the fuzzy tier computes for an entry:
  \<open>levenshtein(nq, e.begriff)\<close>.\<close>

definition fuzzy_distance :: "platform \<Rightarrow> jsstring \<Rightarrow> entry \<Rightarrow> nat" where
  "fuzzy_distance P query e = levenshtein P (normalize_str P (trim P query)) (begriff e)"

text \<open>The autocomplete ranking as the specification words it, without the clause on
  the empty query.\<close>

definition suggest_ranking :: "platform \<Rightarrow> jsstring \<Rightarrow> entry list \<Rightarrow> entry list" where
  "suggest_ranking P query entries =
     (let nq = normalize_str P query
      in take 8 (filter (\<lambda>e. prefix nq (normalize_str P (begriff e))) entries
               @ filter (\<lambda>e. \<not> prefix nq (normalize_str P (begriff e))
                              \<and> includes_str (normalize_str P (begriff e)) nq) entries))"

section \<open>A fragment of the Unicode character database\<close>

text \<open>
  A concrete platform, for evaluating the model on concrete strings. Its tables are
  rows of the Unicode character database (UnicodeData.txt: decomposition mapping,
  canonical combining class, general category, simple lower-case mapping;
  PropList.txt: Diacritic, White_Space) for the code points U+0000 to U+00FF,
  U+0300 to U+0314, U+0327, U+0328, U+03BC, U+2044, U+20D2, U+20D7 and U+FB01, and the
  white space of ECMAScript. On these code points it agrees with the engine; every
  other code unit is left as it is, so the fragment is used on strings of these code
  points only.
\<close>

definition js :: "string \<Rightarrow> jsstring" where
  "js s = map (\<lambda>c. of_nat (of_char c)) s"

text \<open>Canonical decomposition mappings (Latin-1 letters with an accent).\<close>

definition canon_table :: "(codeunit \<times> jsstring) list" where
  "canon_table =
   [(0xC0, [0x41, 0x300]), (0xC1, [0x41, 0x301]), (0xC2, [0x41, 0x302]), (0xC3, [0x41, 0x303]),
    (0xC4, [0x41, 0x308]), (0xC5, [0x41, 0x30A]), (0xC7, [0x43, 0x327]), (0xC8, [0x45, 0x300]),
    (0xC9, [0x45, 0x301]), (0xCA, [0x45, 0x302]), (0xCB, [0x45, 0x308]), (0xCC, [0x49, 0x300]),
    (0xCD, [0x49, 0x301]), (0xCE, [0x49, 0x302]), (0xCF, [0x49, 0x308]), (0xD1, [0x4E, 0x303]),
    (0xD2, [0x4F, 0x300]), (0xD3, [0x4F, 0x301]), (0xD4, [0x4F, 0x302]), (0xD5, [0x4F, 0x303]),
    (0xD6, [0x4F, 0x308]), (0xD9, [0x55, 0x300]), (0xDA, [0x55, 0x301]), (0xDB, [0x55, 0x302]),
    (0xDC, [0x55, 0x308]), (0xDD, [0x59, 0x301]), (0xE0, [0x61, 0x300]), (0xE1, [0x61, 0x301]),
    (0xE2, [0x61, 0x302]), (0xE3, [0x61, 0x303]), (0xE4, [0x61, 0x308]), (0xE5, [0x61, 0x30A]),
    (0xE7, [0x63, 0x327]), (0xE8, [0x65, 0x300]), (0xE9, [0x65, 0x301]), (0xEA, [0x65, 0x302]),
    (0xEB, [0x65, 0x308]), (0xEC, [0x69, 0x300]), (0xED, [0x69, 0x301]), (0xEE, [0x69, 0x302]),
    (0xEF, [0x69, 0x308]), (0xF1, [0x6E, 0x303]), (0xF2, [0x6F, 0x300]), (0xF3, [0x6F, 0x301]),
    (0xF4, [0x6F, 0x302]), (0xF5, [0x6F, 0x303]), (0xF6, [0x6F, 0x308]), (0xF9, [0x75, 0x300]),
    (0xFA, [0x75, 0x301]), (0xFB, [0x75, 0x302]), (0xFC, [0x75, 0x308]), (0xFD, [0x79, 0x301]),
    (0xFF, [0x79, 0x308])]"

text \<open>Compatibility decomposition mappings, fully expanded.\<close>

definition compat_table :: "(codeunit \<times> jsstring) list" where
  "compat_table =
   [(0xA0, [0x20]), (0xA8, [0x20, 0x308]), (0xAA, [0x61]), (0xAF, [0x20, 0x304]),
    (0xB2, [0x32]), (0xB3, [0x33]), (0xB4, [0x20, 0x301]), (0xB5, [0x3BC]),
    (0xB8, [0x20, 0x327]), (0xB9, [0x31]), (0xBA, [0x6F]), (0xBC, [0x31, 0x2044, 0x34]),
    (0xBD, [0x31, 0x2044, 0x32]), (0xBE, [0x33, 0x2044, 0x34]), (0xFB01, [0x66, 0x69])]"

definition decompose :: "(codeunit \<times> jsstring) list \<Rightarrow> codeunit \<Rightarrow> jsstring" where
  "decompose table c =
     (if c < 0xA0 then [c] else (case map_of table c of None \<Rightarrow> [c] | Some d \<Rightarrow> d))"

text \<open>Canonical combining class.\<close>

definition ccc :: "codeunit \<Rightarrow> nat" where
  "ccc c =
     (if c < 0x300 then 0
      else if c \<le> 0x314 then 230
      else if c = 0x327 \<or> c = 0x328 then 202
      else if c = 0x20D2 then 1
      else if c = 0x20D7 then 230
      else 0)"

text \<open>
  Canonical ordering: a character of non-zero class moves left past every character
  of a greater class. \<open>place c acc\<close> adds \<open>c\<close> to the reversed prefix \<open>acc\<close>.
\<close>

fun place :: "codeunit \<Rightarrow> jsstring \<Rightarrow> jsstring" where
  "place c [] = [c]"
| "place c (p # ps) = (if ccc c \<noteq> 0 \<and> ccc c < ccc p then p # place c ps else c # p # ps)"

definition canonical_order :: "jsstring \<Rightarrow> jsstring" where
  "canonical_order s = rev (foldl (\<lambda>acc c. place c acc) [] s)"

definition frag_nfd :: "jsstring \<Rightarrow> jsstring" where
  "frag_nfd s = canonical_order (concat (map (decompose canon_table) s))"

definition frag_nfkd :: "jsstring \<Rightarrow> jsstring" where
  "frag_nfkd s = canonical_order (concat (map (decompose (canon_table @ compat_table)) s))"

definition frag_Diacritic :: "nat \<Rightarrow> bool" where
  "frag_Diacritic cp =
     (cp = 0x5E \<or> cp = 0x60 \<or> cp = 0xA8 \<or> cp = 0xAF \<or> cp = 0xB4 \<or> cp = 0xB7 \<or> cp = 0xB8
      \<or> (0x300 \<le> cp \<and> cp \<le> 0x314) \<or> cp = 0x327 \<or> cp = 0x328)"

definition frag_Mark :: "nat \<Rightarrow> bool" where
  "frag_Mark cp =
     ((0x300 \<le> cp \<and> cp \<le> 0x314) \<or> cp = 0x327 \<or> cp = 0x328 \<or> cp = 0x20D2 \<or> cp = 0x20D7)"

definition lower_unit :: "codeunit \<Rightarrow> codeunit" where
  "lower_unit c =
     (if 0x41 \<le> c \<and> c \<le> 0x5A then c + 0x20
      else if 0xC0 \<le> c \<and> c \<le> 0xDE \<and> c \<noteq> 0xD7 then c + 0x20
      else c)"

text \<open>ECMAScript's WhiteSpace and LineTerminator code points.\<close>

definition white_space :: "codeunit \<Rightarrow> bool" where
  "white_space c =
     (c = 0x9 \<or> c = 0xA \<or> c = 0xB \<or> c = 0xC \<or> c = 0xD \<or> c = 0x20 \<or> c = 0xA0
      \<or> c = 0x1680 \<or> (0x2000 \<le> c \<and> c \<le> 0x200A) \<or> c = 0x2028 \<or> c = 0x2029
      \<or> c = 0x202F \<or> c = 0x205F \<or> c = 0x3000 \<or> c = 0xFEFF)"

definition frag_trim :: "jsstring \<Rightarrow> jsstring" where
  "frag_trim s = rev (dropWhile white_space (rev (dropWhile white_space s)))"

definition ucd :: platform where
  "ucd = \<lparr>trim = frag_trim, nfkd = frag_nfkd, Diacritic = frag_Diacritic,
          toLowerCase = map lower_unit, nfd = frag_nfd, Mark = frag_Mark\<rparr>"

definition term_entry :: "jsstring \<Rightarrow> entry" where
  "term_entry t = \<lparr>begriff = t, definition_text = [], beispiel = [], quellen = []\<rparr>"

section \<open>Auxiliary facts\<close>

subsection \<open>Lists\<close>

lemma includes_str_iff: "includes_str s t \<longleftrightarrow> (\<exists>u v. s = u @ t @ v)"
proof (induction s)
  case Nil
  then show ?case by auto
next
  case (Cons x xs)
  show ?case
  proof
    assume "includes_str (x # xs) t"
    then consider "prefix t (x # xs)" | "includes_str xs t" by auto
    then show "\<exists>u v. x # xs = u @ t @ v"
    proof cases
      case 1
      then obtain v where "x # xs = t @ v" by (auto simp: prefix_def)
      then have "x # xs = [] @ t @ v" by simp
      then show ?thesis by blast
    next
      case 2
      with Cons.IH obtain u v where "xs = u @ t @ v" by blast
      then have "x # xs = (x # u) @ t @ v" by simp
      then show ?thesis by blast
    qed
  next
    assume "\<exists>u v. x # xs = u @ t @ v"
    then obtain u v where uv: "x # xs = u @ t @ v" by blast
    show "includes_str (x # xs) t"
    proof (cases u)
      case Nil
      with uv have "prefix t (x # xs)" by (simp add: prefix_def)
      then show ?thesis by simp
    next
      case (Cons y u')
      with uv have "xs = u' @ t @ v" by simp
      with Cons.IH have "includes_str xs t" by blast
      then show ?thesis by simp
    qed
  qed
qed

lemma map_fst_insort_pair:
  "\<forall>x\<in>set xs. snd x = d (fst x) \<Longrightarrow>
   map fst (insort_key snd (e, d e) xs) = insort_key d e (map fst xs)"
  by (induction xs) auto

lemma sort_pairs_aux:
  "(\<forall>x\<in>set (sort_key snd (filter (\<lambda>x. p (snd x)) (map (\<lambda>e. (e, d e)) es))). snd x = d (fst x))
   \<and> map fst (sort_key snd (filter (\<lambda>x. p (snd x)) (map (\<lambda>e. (e, d e)) es))) =
     sort_key d (filter (\<lambda>e. p (d e)) es)"
proof (induction es)
  case Nil
  show ?case by simp
next
  case (Cons e es)
  define ys where "ys = sort_key snd (filter (\<lambda>x. p (snd x)) (map (\<lambda>e. (e, d e)) es))"
  from Cons.IH have ih1: "\<forall>x\<in>set ys. snd x = d (fst x)"
    and ih2: "map fst ys = sort_key d (filter (\<lambda>e. p (d e)) es)"
    unfolding ys_def by blast+
  show ?case
  proof (cases "p (d e)")
    case True
    then have l: "sort_key snd (filter (\<lambda>x. p (snd x)) (map (\<lambda>e. (e, d e)) (e # es)))
        = insort_key snd (e, d e) ys"
      by (simp add: ys_def)
    have r: "sort_key d (filter (\<lambda>e. p (d e)) (e # es)) = insort_key d e (map fst ys)"
      using True by (simp add: ih2)
    have "\<forall>x\<in>set (insort_key snd (e, d e) ys). snd x = d (fst x)"
      using ih1 by (simp add: set_insort_key)
    moreover have "map fst (insort_key snd (e, d e) ys) = insort_key d e (map fst ys)"
      using ih1 by (rule map_fst_insort_pair)
    ultimately show ?thesis unfolding l r by blast
  next
    case False
    then have l: "sort_key snd (filter (\<lambda>x. p (snd x)) (map (\<lambda>e. (e, d e)) (e # es))) = ys"
      by (simp add: ys_def)
    have r: "sort_key d (filter (\<lambda>e. p (d e)) (e # es)) = map fst ys"
      using False by (simp add: ih2)
    show ?thesis unfolding l r using ih1 by blast
  qed
qed

text \<open>Sorting the pairs \<open>{e, d}\<close> by \<open>d\<close> and projecting is sorting the entries by their
  distance.\<close>

lemma sort_pairs:
  "map fst (sort_key snd (filter (\<lambda>x. p (snd x)) (map (\<lambda>e. (e, d e)) es))) =
   sort_key d (filter (\<lambda>e. p (d e)) es)"
  using sort_pairs_aux [of p d es] by blast

subsection \<open>The fragment on ASCII strings\<close>

lemma unat_js_char: "unat (of_nat (of_char c) :: codeunit) = of_char c"
proof -
  have "(of_char c :: nat) < 2 ^ 16"
    by (rule less_trans [OF nat_of_char_less_256]) simp
  then show ?thesis by (simp add: unat_of_nat)
qed

lemma js_eq_iff [simp]: "js s = js t \<longleftrightarrow> s = t"
proof
  assume "js s = js t"
  then have "map unat (js s) = map unat (js t)" by simp
  then have "map (of_char :: char \<Rightarrow> nat) s = map of_char t"
    by (simp add: js_def unat_js_char comp_def)
  then show "s = t"
    by (simp add: inj_map_eq_map inj_on_def)
next
  assume "s = t" then show "js s = js t" by simp
qed

lemma js_Nil_iff [simp]: "js s = [] \<longleftrightarrow> s = []"
  by (simp add: js_def)

lemma begriff_term_entry: "begriff (term_entry t) = t"
  by (simp add: term_entry_def)

lemma trim_ucd: "trim ucd = frag_trim"
  by (simp add: ucd_def)

lemma place_starter: "ccc c = 0 \<Longrightarrow> place c acc = c # acc"
  by (cases acc) simp_all

lemma foldl_place_starters:
  "\<forall>c\<in>set s. ccc c = 0 \<Longrightarrow> foldl (\<lambda>acc c. place c acc) acc s = rev s @ acc"
  by (induction s arbitrary: acc) (simp_all add: place_starter)

lemma canonical_order_starters: "\<forall>c\<in>set s. ccc c = 0 \<Longrightarrow> canonical_order s = s"
  by (simp add: canonical_order_def foldl_place_starters)

lemma decompose_low: "c < 0xA0 \<Longrightarrow> decompose table c = [c]"
  by (simp add: decompose_def)

lemma concat_map_decompose_low:
  "\<forall>c\<in>set s. c < 0xA0 \<Longrightarrow> concat (map (decompose table) s) = s"
  by (induction s) (simp_all add: decompose_low)

lemma ccc_low: "c < 0x300 \<Longrightarrow> ccc c = 0"
  by (simp add: ccc_def)

lemma frag_nfkd_ascii:
  assumes "\<forall>c\<in>set s. c < 0x80"
  shows "frag_nfkd s = s"
proof -
  have a: "\<forall>c\<in>set s. c < 0xA0"
    using assms by (auto intro: order.strict_trans)
  have b: "\<forall>c\<in>set s. ccc c = 0"
    using assms by (auto intro!: ccc_low intro: order.strict_trans)
  show ?thesis
    by (simp add: frag_nfkd_def concat_map_decompose_low [OF a] canonical_order_starters [OF b])
qed

lemma utf16_unat: "utf16 (unat (c :: codeunit)) = [c]"
proof -
  have "unat c < 0x10000"
    using unsigned_less [of c, where ?'a = nat] by simp
  then show ?thesis by (simp add: utf16_def)
qed

lemma code_points_bmp: "\<forall>c\<in>set s. \<not> is_high c \<Longrightarrow> code_points s = map unat s"
  by (induction s rule: code_points.induct) simp_all

lemma replace_all_u_bmp:
  "\<forall>c\<in>set s. \<not> is_high c \<Longrightarrow> replace_all_u p s = filter (\<lambda>c. \<not> p (unat c)) s"
proof (induction s)
  case Nil
  show ?case by (simp add: replace_all_u_def)
next
  case (Cons c s)
  then have "replace_all_u p s = filter (\<lambda>c. \<not> p (unat c)) s" by simp
  moreover have "code_points (c # s) = unat c # code_points s"
    using Cons.prems by (simp add: code_points_bmp)
  ultimately show ?case
    by (simp add: replace_all_u_def utf16_unat)
qed

lemma ascii_not_high: "c < 0x80 \<Longrightarrow> \<not> is_high (c :: codeunit)"
  by (simp add: is_high_def word_less_nat_alt word_le_nat_alt)

lemma normalize_ascii:
  assumes "\<forall>c\<in>set s. c < 0x80"
  shows "normalize_str ucd s = map lower_unit (filter (\<lambda>c. c \<noteq> 0x5E \<and> c \<noteq> 0x60) s)"
proof -
  have h: "\<forall>c\<in>set s. \<not> is_high c"
    using assms by (simp add: ascii_not_high)
  have d: "frag_Diacritic (unat c) \<longleftrightarrow> (c = 0x5E \<or> c = 0x60)" if "c < 0x80" for c :: codeunit
  proof -
    have u: "unat c < 128" using that by (simp add: word_less_nat_alt)
    have e1: "c = 0x5E \<longleftrightarrow> unat c = 94" by (simp add: word_unat_eq_iff)
    have e2: "c = 0x60 \<longleftrightarrow> unat c = 96" by (simp add: word_unat_eq_iff)
    show ?thesis unfolding frag_Diacritic_def e1 e2 using u by arith
  qed
  have "filter (\<lambda>c. \<not> frag_Diacritic (unat c)) s = filter (\<lambda>c. c \<noteq> 0x5E \<and> c \<noteq> 0x60) s"
    using assms d by (intro filter_cong) auto
  then show ?thesis
    by (simp add: normalize_str_def ucd_def frag_nfkd_ascii [OF assms] replace_all_u_bmp [OF h])
qed


subsection \<open>The table of \<open>levenshtein\<close>\<close>

lemma shape_set_cell: "shape m n dp \<Longrightarrow> i \<le> m \<Longrightarrow> shape m n (set_cell dp i j v)"
  by (simp add: shape_def set_cell_def nth_list_update)

lemma nth_set_cell:
  "shape m n dp \<Longrightarrow> i \<le> m \<Longrightarrow> j \<le> n \<Longrightarrow> i' \<le> m \<Longrightarrow> j' \<le> n \<Longrightarrow>
   set_cell dp i j v ! i' ! j' = (if i' = i \<and> j' = j then v else dp ! i' ! j')"
  by (simp add: shape_def set_cell_def nth_list_update)

lemma shape_replicate: "shape m n (replicate (m + 1) (replicate (n + 1) 0))"
  by (simp add: shape_def less_Suc_eq_le del: replicate_Suc)

lemma init_col:
  assumes "shape m n dp" and "k \<le> Suc m"
  shows "shape m n (fold (\<lambda>i dp. set_cell dp i 0 i) [0..<k] dp)
       \<and> (\<forall>i\<le>m. \<forall>j\<le>n. fold (\<lambda>i dp. set_cell dp i 0 i) [0..<k] dp ! i ! j
              = (if j = 0 \<and> i < k then i else dp ! i ! j))"
  using assms(2)
proof (induction k)
  case 0
  show ?case using assms(1) by simp
next
  case (Suc k)
  define dp' where "dp' = fold (\<lambda>i dp. set_cell dp i 0 i) [0..<k] dp"
  from Suc have s: "shape m n dp'"
    and c: "\<forall>i\<le>m. \<forall>j\<le>n. dp' ! i ! j = (if j = 0 \<and> i < k then i else dp ! i ! j)"
    and km: "k \<le> m"
    unfolding dp'_def by simp_all
  have f: "fold (\<lambda>i dp. set_cell dp i 0 i) [0..<Suc k] dp = set_cell dp' k 0 k"
    by (simp add: dp'_def)
  have "shape m n (set_cell dp' k 0 k)"
    using s km by (rule shape_set_cell)
  moreover have "\<forall>i\<le>m. \<forall>j\<le>n. set_cell dp' k 0 k ! i ! j
      = (if j = 0 \<and> i < Suc k then i else dp ! i ! j)"
  proof (intro allI impI)
    fix i j assume ij: "i \<le> m" "j \<le> n"
    have "set_cell dp' k 0 k ! i ! j = (if i = k \<and> j = 0 then k else dp' ! i ! j)"
      using s km ij by (simp add: nth_set_cell)
    also have "\<dots> = (if j = 0 \<and> i < Suc k then i else dp ! i ! j)"
      using c ij by (auto simp: less_Suc_eq)
    finally show "set_cell dp' k 0 k ! i ! j = (if j = 0 \<and> i < Suc k then i else dp ! i ! j)" .
  qed
  ultimately show ?case unfolding f by blast
qed

lemma init_row:
  assumes "shape m n dp" and "k \<le> Suc n"
  shows "shape m n (fold (\<lambda>j dp. set_cell dp 0 j j) [0..<k] dp)
       \<and> (\<forall>i\<le>m. \<forall>j\<le>n. fold (\<lambda>j dp. set_cell dp 0 j j) [0..<k] dp ! i ! j
              = (if i = 0 \<and> j < k then j else dp ! i ! j))"
  using assms(2)
proof (induction k)
  case 0
  show ?case using assms(1) by simp
next
  case (Suc k)
  define dp' where "dp' = fold (\<lambda>j dp. set_cell dp 0 j j) [0..<k] dp"
  from Suc have s: "shape m n dp'"
    and c: "\<forall>i\<le>m. \<forall>j\<le>n. dp' ! i ! j = (if i = 0 \<and> j < k then j else dp ! i ! j)"
    and kn: "k \<le> n"
    unfolding dp'_def by simp_all
  have f: "fold (\<lambda>j dp. set_cell dp 0 j j) [0..<Suc k] dp = set_cell dp' 0 k k"
    by (simp add: dp'_def)
  have "shape m n (set_cell dp' 0 k k)"
    using s by (rule shape_set_cell) simp
  moreover have "\<forall>i\<le>m. \<forall>j\<le>n. set_cell dp' 0 k k ! i ! j
      = (if i = 0 \<and> j < Suc k then j else dp ! i ! j)"
  proof (intro allI impI)
    fix i j assume ij: "i \<le> m" "j \<le> n"
    have "set_cell dp' 0 k k ! i ! j = (if i = 0 \<and> j = k then k else dp' ! i ! j)"
      using s kn ij by (simp add: nth_set_cell)
    also have "\<dots> = (if i = 0 \<and> j < Suc k then j else dp ! i ! j)"
      using c ij by (auto simp: less_Suc_eq)
    finally show "set_cell dp' 0 k k ! i ! j = (if i = 0 \<and> j < Suc k then j else dp ! i ! j)" .
  qed
  ultimately show ?case unfolding f by blast
qed

lemma upt_1_Suc_Suc: "[1..<Suc (Suc k)] = [1..<Suc k] @ [Suc k]"
  by simp

lemma inner_loop:
  assumes "shape m n dp" and "i \<le> m" and "k \<le> n"
    and "\<forall>j\<le>n. dp ! i ! j = lev_rec a b i j"
    and "dp ! Suc i ! 0 = Suc i" and "Suc i \<le> m"
  shows "shape m n (fold (lev_cell a b (Suc i)) [1..<Suc k] dp)
       \<and> (\<forall>j\<le>k. fold (lev_cell a b (Suc i)) [1..<Suc k] dp ! Suc i ! j = lev_rec a b (Suc i) j)
       \<and> (\<forall>i'\<le>m. \<forall>j\<le>n. i' \<noteq> Suc i \<or> k < j \<longrightarrow>
             fold (lev_cell a b (Suc i)) [1..<Suc k] dp ! i' ! j = dp ! i' ! j)"
  using assms(3)
proof (induction k)
  case 0
  show ?case using assms(1,5) by simp
next
  case (Suc k)
  define dp' where "dp' = fold (lev_cell a b (Suc i)) [1..<Suc k] dp"
  from Suc have s: "shape m n dp'"
    and row: "\<forall>j\<le>k. dp' ! Suc i ! j = lev_rec a b (Suc i) j"
    and rest: "\<forall>i'\<le>m. \<forall>j\<le>n. i' \<noteq> Suc i \<or> k < j \<longrightarrow> dp' ! i' ! j = dp ! i' ! j"
    and kn: "Suc k \<le> n"
    unfolding dp'_def by simp_all
  have up: "dp' ! i ! j = lev_rec a b i j" if "j \<le> n" for j
    using rest assms(2,4) that by simp
  define v where "v = lev_rec a b (Suc i) (Suc k)"
  have v: "min (dp' ! (Suc i - 1) ! Suc k + 1)
             (min (dp' ! Suc i ! (Suc k - 1) + 1)
                  (dp' ! (Suc i - 1) ! (Suc k - 1)
                    + (if a ! (Suc i - 1) = b ! (Suc k - 1) then 0 else 1))) = v"
    using up [of "Suc k"] up [of k] row kn by (simp add: v_def)
  have "fold (lev_cell a b (Suc i)) ([1..<Suc k] @ [Suc k]) dp = lev_cell a b (Suc i) (Suc k) dp'"
    by (simp only: fold_append fold.simps comp_apply id_apply dp'_def)
  also have "\<dots> = set_cell dp' (Suc i) (Suc k) v"
    by (simp only: lev_cell_def Let_def v)
  finally have f: "fold (lev_cell a b (Suc i)) [1..<Suc (Suc k)] dp = set_cell dp' (Suc i) (Suc k) v"
    by (simp only: upt_1_Suc_Suc)
  have "shape m n (set_cell dp' (Suc i) (Suc k) v)"
    using s assms(6) by (rule shape_set_cell)
  moreover have "\<forall>j\<le>Suc k. set_cell dp' (Suc i) (Suc k) v ! Suc i ! j = lev_rec a b (Suc i) j"
  proof (intro allI impI)
    fix j assume j: "j \<le> Suc k"
    then have jn: "j \<le> n" using kn by simp
    have "set_cell dp' (Suc i) (Suc k) v ! Suc i ! j = (if j = Suc k then v else dp' ! Suc i ! j)"
      using s assms(6) kn jn by (simp add: nth_set_cell)
    also have "\<dots> = lev_rec a b (Suc i) j"
      using row j by (auto simp: v_def le_Suc_eq)
    finally show "set_cell dp' (Suc i) (Suc k) v ! Suc i ! j = lev_rec a b (Suc i) j" .
  qed
  moreover have "\<forall>i'\<le>m. \<forall>j\<le>n. i' \<noteq> Suc i \<or> Suc k < j \<longrightarrow>
       set_cell dp' (Suc i) (Suc k) v ! i' ! j = dp ! i' ! j"
  proof (intro allI impI)
    fix i' j assume ij: "i' \<le> m" "j \<le> n" and d: "i' \<noteq> Suc i \<or> Suc k < j"
    have "set_cell dp' (Suc i) (Suc k) v ! i' ! j = dp' ! i' ! j"
      using s assms(6) kn ij d by (auto simp: nth_set_cell)
    also have "\<dots> = dp ! i' ! j"
      using rest ij d by auto
    finally show "set_cell dp' (Suc i) (Suc k) v ! i' ! j = dp ! i' ! j" .
  qed
  ultimately show ?case unfolding f by blast
qed

lemma outer_loop:
  assumes "shape m n dp" and "k \<le> m"
    and "\<forall>j\<le>n. dp ! 0 ! j = j" and "\<forall>i\<le>m. dp ! i ! 0 = i"
  shows "shape m n (fold (\<lambda>i dp. fold (lev_cell a b i) [1..<n + 1] dp) [1..<Suc k] dp)
       \<and> (\<forall>i\<le>k. \<forall>j\<le>n. fold (\<lambda>i dp. fold (lev_cell a b i) [1..<n + 1] dp) [1..<Suc k] dp ! i ! j
              = lev_rec a b i j)
       \<and> (\<forall>i\<le>m. \<forall>j\<le>n. k < i \<longrightarrow>
             fold (\<lambda>i dp. fold (lev_cell a b i) [1..<n + 1] dp) [1..<Suc k] dp ! i ! j = dp ! i ! j)"
  using assms(2)
proof (induction k)
  case 0
  show ?case using assms(1,3) by simp
next
  case (Suc k)
  define dp' where "dp' = fold (\<lambda>i dp. fold (lev_cell a b i) [1..<n + 1] dp) [1..<Suc k] dp"
  define dp'' where "dp'' = fold (lev_cell a b (Suc k)) [1..<Suc n] dp'"
  from Suc have s: "shape m n dp'"
    and rows: "\<forall>i\<le>k. \<forall>j\<le>n. dp' ! i ! j = lev_rec a b i j"
    and rest: "\<forall>i\<le>m. \<forall>j\<le>n. k < i \<longrightarrow> dp' ! i ! j = dp ! i ! j"
    and km: "Suc k \<le> m"
    unfolding dp'_def by simp_all
  have "fold (\<lambda>i dp. fold (lev_cell a b i) [1..<n + 1] dp) ([1..<Suc k] @ [Suc k]) dp = dp''"
    by (simp only: fold_append fold.simps comp_apply id_apply dp'_def dp''_def Suc_eq_plus1)
  then have f: "fold (\<lambda>i dp. fold (lev_cell a b i) [1..<n + 1] dp) [1..<Suc (Suc k)] dp = dp''"
    by (simp only: upt_1_Suc_Suc)
  have k_le: "k \<le> m" using km by simp
  have r: "\<forall>j\<le>n. dp' ! k ! j = lev_rec a b k j"
    using rows by simp
  have z: "dp' ! Suc k ! 0 = Suc k"
    using rest km assms(4) by simp
  have inner: "shape m n dp''
      \<and> (\<forall>j\<le>n. dp'' ! Suc k ! j = lev_rec a b (Suc k) j)
      \<and> (\<forall>i'\<le>m. \<forall>j\<le>n. i' \<noteq> Suc k \<or> n < j \<longrightarrow> dp'' ! i' ! j = dp' ! i' ! j)"
    unfolding dp''_def using s k_le order_refl r z km by (rule inner_loop)
  have "\<forall>i\<le>Suc k. \<forall>j\<le>n. dp'' ! i ! j = lev_rec a b i j"
  proof (intro allI impI)
    fix i j assume ij: "i \<le> Suc k" "j \<le> n"
    show "dp'' ! i ! j = lev_rec a b i j"
    proof (cases "i = Suc k")
      case True
      then show ?thesis using inner ij by simp
    next
      case False
      then have ik: "i \<le> k" using ij by simp
      then have "i \<le> m" using km by simp
      then have "dp'' ! i ! j = dp' ! i ! j" using inner False ij by simp
      then show ?thesis using rows ik ij by simp
    qed
  qed
  moreover have "\<forall>i\<le>m. \<forall>j\<le>n. Suc k < i \<longrightarrow> dp'' ! i ! j = dp ! i ! j"
  proof (intro allI impI)
    fix i j assume ij: "i \<le> m" "j \<le> n" "Suc k < i"
    then have "dp'' ! i ! j = dp' ! i ! j" using inner by simp
    then show "dp'' ! i ! j = dp ! i ! j" using rest ij by simp
  qed
  ultimately show ?case unfolding f using inner by blast
qed

lemma lev_table_spec:
  "shape (length a) (length b) (lev_table a b)
   \<and> (\<forall>i\<le>length a. \<forall>j\<le>length b. lev_table a b ! i ! j = lev_rec a b i j)"
proof -
  let ?m = "length a" and ?n = "length b"
  define dp0 :: "nat list list" where "dp0 = replicate (?m + 1) (replicate (?n + 1) 0)"
  define dp1 where "dp1 = fold (\<lambda>i dp. set_cell dp i 0 i) [0..<?m + 1] dp0"
  define dp2 where "dp2 = fold (\<lambda>j dp. set_cell dp 0 j j) [0..<?n + 1] dp1"
  have s0: "shape ?m ?n dp0" unfolding dp0_def by (rule shape_replicate)
  have c1: "shape ?m ?n dp1 \<and> (\<forall>i\<le>?m. \<forall>j\<le>?n. dp1 ! i ! j = (if j = 0 \<and> i < Suc ?m then i else dp0 ! i ! j))"
    unfolding dp1_def using init_col [OF s0, of "Suc ?m"] by simp
  then have s1: "shape ?m ?n dp1" by blast
  have c2: "shape ?m ?n dp2 \<and> (\<forall>i\<le>?m. \<forall>j\<le>?n. dp2 ! i ! j = (if i = 0 \<and> j < Suc ?n then j else dp1 ! i ! j))"
    unfolding dp2_def using init_row [OF s1, of "Suc ?n"] by simp
  then have s2: "shape ?m ?n dp2" by blast
  have r0: "\<forall>j\<le>?n. dp2 ! 0 ! j = j" using c2 by simp
  have col0: "\<forall>i\<le>?m. dp2 ! i ! 0 = i" using c1 c2 by simp
  have t: "lev_table a b = fold (\<lambda>i dp. fold (lev_cell a b i) [1..<?n + 1] dp) [1..<Suc ?m] dp2"
    by (simp add: lev_table_def Let_def dp0_def dp1_def dp2_def del: upt_Suc)
  show ?thesis
    unfolding t using outer_loop [OF s2 order_refl r0 col0, of a b] by simp
qed

lemma lev_table_cell:
  "i \<le> length a \<Longrightarrow> j \<le> length b \<Longrightarrow> lev_table a b ! i ! j = lev_rec a b i j"
  using lev_table_spec [of a b] by simp

lemma lev_dist_rec: "lev_dist a b = edit_distance a b"
proof (cases "length a = 0 \<or> length b = 0")
  case True
  then show ?thesis
    by (cases "length a") (auto simp: lev_dist_def edit_distance_def Let_def)
next
  case False
  then show ?thesis
    by (simp add: lev_dist_def edit_distance_def Let_def lev_table_cell)
qed


subsection \<open>The recurrence is the least number of edits\<close>

lemma lev_rec_zero_right: "lev_rec a b i 0 = i"
  by (cases i) simp_all

lemma lev_rec_append:
  "i \<le> length a \<Longrightarrow> j \<le> length b \<Longrightarrow> lev_rec (a @ a') (b @ b') i j = lev_rec a b i j"
proof (induction a b i j rule: lev_rec.induct)
  case (1 a b j)
  show ?case by simp
next
  case (2 a b i)
  show ?case by simp
next
  case (3 a b i j)
  then have "lev_rec (a @ a') (b @ b') i (Suc j) = lev_rec a b i (Suc j)"
    and "lev_rec (a @ a') (b @ b') (Suc i) j = lev_rec a b (Suc i) j"
    and "lev_rec (a @ a') (b @ b') i j = lev_rec a b i j"
    by simp_all
  moreover have "(a @ a') ! i = a ! i" and "(b @ b') ! j = b ! j"
    using "3.prems" by (simp_all add: nth_append)
  ultimately show ?case by simp
qed

lemma edit_distance_delete: "edit_distance (xs @ [x]) ys \<le> Suc (edit_distance xs ys)"
proof (cases "length ys")
  case 0
  then show ?thesis by (simp add: edit_distance_def lev_rec_zero_right)
next
  case (Suc j)
  have "lev_rec (xs @ [x]) ys (Suc (length xs)) (Suc j) \<le> lev_rec (xs @ [x]) ys (length xs) (Suc j) + 1"
    by simp
  also have "lev_rec (xs @ [x]) ys (length xs) (Suc j) = lev_rec xs ys (length xs) (Suc j)"
    using lev_rec_append [of "length xs" xs "Suc j" ys "[x]" "[]"] Suc by simp
  finally show ?thesis using Suc by (simp add: edit_distance_def)
qed

lemma edit_distance_insert: "edit_distance xs (ys @ [y]) \<le> Suc (edit_distance xs ys)"
proof (cases "length xs")
  case 0
  then show ?thesis by (simp add: edit_distance_def)
next
  case (Suc i)
  have "lev_rec xs (ys @ [y]) (Suc i) (Suc (length ys)) \<le> lev_rec xs (ys @ [y]) (Suc i) (length ys) + 1"
    by simp
  also have "lev_rec xs (ys @ [y]) (Suc i) (length ys) = lev_rec xs ys (Suc i) (length ys)"
    using lev_rec_append [of "Suc i" xs "length ys" ys "[]" "[y]"] Suc by simp
  finally show ?thesis using Suc by (simp add: edit_distance_def)
qed

lemma edit_distance_align:
  "edit_distance (xs @ [x]) (ys @ [y]) \<le> edit_distance xs ys + (if x = y then 0 else 1)"
proof -
  have "lev_rec (xs @ [x]) (ys @ [y]) (Suc (length xs)) (Suc (length ys))
      \<le> lev_rec (xs @ [x]) (ys @ [y]) (length xs) (length ys) + (if x = y then 0 else 1)"
    by simp
  also have "lev_rec (xs @ [x]) (ys @ [y]) (length xs) (length ys) = lev_rec xs ys (length xs) (length ys)"
    using lev_rec_append [of "length xs" xs "length ys" ys "[x]" "[y]"] by simp
  finally show ?thesis by (simp add: edit_distance_def)
qed

lemma edits_lower_bound: "edits k xs ys \<Longrightarrow> edit_distance xs ys \<le> k"
proof (induction rule: edits.induct)
  case edits_Nil
  show ?case by (simp add: edit_distance_def)
next
  case (edits_delete k xs ys x)
  then show ?case using edit_distance_delete [of xs x ys] by simp
next
  case (edits_insert k xs ys y)
  then show ?case using edit_distance_insert [of xs ys y] by simp
next
  case (edits_keep k xs ys x)
  then show ?case using edit_distance_align [of xs x ys x] by simp
next
  case (edits_substitute k xs ys x y)
  then show ?case using edit_distance_align [of xs x ys y] by (simp split: if_splits)
qed

lemma edits_insert_all: "j \<le> length b \<Longrightarrow> edits j [] (take j b)"
proof (induction j)
  case 0
  show ?case by (simp add: edits_Nil)
next
  case (Suc j)
  then have "edits j [] (take j b)" by simp
  then have "edits (Suc j) [] (take j b @ [b ! j])" by (rule edits_insert)
  then show ?case using Suc.prems by (simp add: take_Suc_conv_app_nth)
qed

lemma edits_delete_all: "i \<le> length a \<Longrightarrow> edits i (take i a) []"
proof (induction i)
  case 0
  show ?case by (simp add: edits_Nil)
next
  case (Suc i)
  then have "edits i (take i a) []" by simp
  then have "edits (Suc i) (take i a @ [a ! i]) []" by (rule edits_delete)
  then show ?case using Suc.prems by (simp add: take_Suc_conv_app_nth)
qed

lemma edits_lev_rec:
  "i \<le> length a \<Longrightarrow> j \<le> length b \<Longrightarrow> edits (lev_rec a b i j) (take i a) (take j b)"
proof (induction a b i j rule: lev_rec.induct)
  case (1 a b j)
  then show ?case by (simp add: edits_insert_all)
next
  case (2 a b i)
  then show ?case using edits_delete_all [of "Suc i" a] by simp
next
  case (3 a b i j)
  have ta: "take (Suc i) a = take i a @ [a ! i]" and tb: "take (Suc j) b = take j b @ [b ! j]"
    using "3.prems" by (simp_all add: take_Suc_conv_app_nth)
  have d: "edits (Suc (lev_rec a b i (Suc j))) (take (Suc i) a) (take (Suc j) b)"
    unfolding ta using "3.IH"(1) "3.prems" by (simp add: edits_delete)
  have ins: "edits (Suc (lev_rec a b (Suc i) j)) (take (Suc i) a) (take (Suc j) b)"
    unfolding tb using "3.IH"(2) "3.prems" by (simp add: edits_insert)
  have al: "edits (lev_rec a b i j + (if a ! i = b ! j then 0 else 1)) (take (Suc i) a) (take (Suc j) b)"
  proof (cases "a ! i = b ! j")
    case True
    have "edits (lev_rec a b i j) (take i a @ [a ! i]) (take j b @ [a ! i])"
      using "3.IH"(3) "3.prems" by (simp add: edits_keep)
    then show ?thesis using True by (simp add: ta tb)
  next
    case False
    have "edits (Suc (lev_rec a b i j)) (take i a @ [a ! i]) (take j b @ [b ! j])"
      using "3.IH"(3) "3.prems" by (simp add: edits_substitute)
    then show ?thesis using False by (simp add: ta tb)
  qed
  have "lev_rec a b (Suc i) (Suc j) = Suc (lev_rec a b i (Suc j))
      \<or> lev_rec a b (Suc i) (Suc j) = Suc (lev_rec a b (Suc i) j)
      \<or> lev_rec a b (Suc i) (Suc j) = lev_rec a b i j + (if a ! i = b ! j then 0 else 1)"
    by (simp add: min_def)
  then show ?case using d ins al by metis
qed

lemma edit_distance_minimal:
  "edits (edit_distance a b) a b \<and> (\<forall>k. edits k a b \<longrightarrow> edit_distance a b \<le> k)"
  using edits_lev_rec [of "length a" a "length b" b] edits_lower_bound [of _ a b]
  by (simp add: edit_distance_def)

lemma edit_distance_Nil: "edit_distance [] b = length b" "edit_distance a [] = length a"
  by (simp_all add: edit_distance_def lev_rec_zero_right)

lemma lev_rec_zero_D:
  "lev_rec a b i j = 0 \<Longrightarrow> i \<le> length a \<Longrightarrow> j \<le> length b \<Longrightarrow> i = j \<and> take i a = take j b"
proof (induction a b i j rule: lev_rec.induct)
  case (1 a b j)
  then show ?case by simp
next
  case (2 a b i)
  then show ?case by simp
next
  case (3 a b i j)
  from "3.prems"(1) have z: "lev_rec a b i j = 0" and e: "a ! i = b ! j"
    by (simp_all add: min_def split: if_splits)
  have le: "i \<le> length a" "j \<le> length b"
    using "3.prems" by simp_all
  from "3.IH"(3) [OF z le] have ij: "i = j" and t: "take i a = take j b"
    by blast+
  have "take (Suc i) a = take i a @ [a ! i]" and "take (Suc j) b = take j b @ [b ! j]"
    using "3.prems" by (simp_all add: take_Suc_conv_app_nth)
  then show ?case using ij t e by simp
qed

lemma lev_rec_same: "i \<le> length a \<Longrightarrow> lev_rec a a i i = 0"
  by (induction i) simp_all

lemma edit_distance_zero_iff: "edit_distance a b = 0 \<longleftrightarrow> a = b"
proof
  assume "edit_distance a b = 0"
  then have "lev_rec a b (length a) (length b) = 0" by (simp add: edit_distance_def)
  from lev_rec_zero_D [OF this] show "a = b" by simp
next
  assume "a = b"
  then show "edit_distance a b = 0" by (simp add: edit_distance_def lev_rec_same)
qed

subsection \<open>Evaluating the fragment\<close>

lemmas frag_eval = normalize_str_def ucd_def frag_nfkd_def frag_nfd_def decompose_def canon_table_def
  compat_table_def canonical_order_def ccc_def replace_all_u_def is_high_def is_low_def utf16_def
  frag_Diacritic_def frag_Mark_def lower_unit_def

text \<open>
  The string \<open>a\<close>, U+20D7 (combining right arrow above, class 230), \<open>^\<close>, U+20D2
  (combining long vertical line overlay, class 1). The circumflex accent has the
  property Diacritic and is a starter; the two combining marks do not have the
  property. NFKD leaves the string as it is, the replacement removes \<open>^\<close>, and the two
  marks are then adjacent in an order that NFKD changes.
\<close>

lemma q0_once: "normalize_str ucd [0x61, 0x20D7, 0x5E, 0x20D2] = [0x61, 0x20D7, 0x20D2]"
  by (simp add: frag_eval)

lemma q0_twice: "normalize_str ucd [0x61, 0x20D7, 0x20D2] = [0x61, 0x20D2, 0x20D7]"
  by (simp add: frag_eval)

lemma q0_fix: "normalize_str ucd [0x61, 0x20D2, 0x20D7] = [0x61, 0x20D2, 0x20D7]"
  by (simp add: frag_eval)

lemma q0_trim: "trim ucd [0x61, 0x20D7, 0x5E, 0x20D2] = [0x61, 0x20D7, 0x5E, 0x20D2]"
  by (simp add: trim_ucd frag_trim_def white_space_def)




subsection \<open>Distance zero\<close>

lemma levenshtein_zero_iff: "levenshtein P a b = 0 \<longleftrightarrow> normalize_str P a = normalize_str P b"
  by (simp add: levenshtein_def lev_dist_rec edit_distance_zero_iff)

text \<open>The fuzzy tier passes the normalized query to \<open>levenshtein\<close>: its distance 0
  is the exact match when normalizing the normalized query changes nothing.\<close>

lemma exact_tier_fuzzy_distance:
  assumes "normalize_str P (normalize_str P (trim P query)) = normalize_str P (trim P query)"
  shows "filter (\<lambda>e. normalize_str P (begriff e) = normalize_str P (trim P query)) entries
       = filter (\<lambda>e. fuzzy_distance P query e = 0) entries"
proof -
  have "(\<lambda>e. normalize_str P (begriff e) = normalize_str P (trim P query))
      = (\<lambda>e. fuzzy_distance P query e = 0)"
    using assms by (auto simp: fuzzy_distance_def levenshtein_zero_iff fun_eq_iff)
  then show ?thesis by (rule arg_cong)
qed

subsection \<open>The collection\<close>

lemma findIndex_ge: "- 1 \<le> findIndex p xs"
  by (induction xs) (simp_all add: Let_def)

lemma findIndex_neg_iff: "findIndex p xs < 0 \<longleftrightarrow> (\<forall>x\<in>set xs. \<not> p x)"
proof (induction xs)
  case Nil
  show ?case by simp
next
  case (Cons x xs)
  have "- 1 \<le> findIndex p xs" by (rule findIndex_ge)
  with Cons show ?case by (auto simp: Let_def)
qed

lemma findIndex_found:
  "0 \<le> findIndex p xs \<Longrightarrow> nat (findIndex p xs) < length xs \<and> p (xs ! nat (findIndex p xs))"
proof (induction xs)
  case Nil
  then show ?case by simp
next
  case (Cons x xs)
  show ?case
  proof (cases "p x")
    case True
    then show ?thesis by simp
  next
    case False
    with Cons.prems have nn: "0 \<le> findIndex p xs"
      by (simp add: Let_def split: if_splits)
    then have f: "findIndex p (x # xs) = findIndex p xs + 1"
      using False by (simp add: Let_def)
    from Cons.IH [OF nn] have "nat (findIndex p xs) < length xs" and "p (xs ! nat (findIndex p xs))"
      by blast+
    moreover have "nat (findIndex p xs + 1) = Suc (nat (findIndex p xs))"
      using nn by simp
    ultimately show ?thesis unfolding f by simp
  qed
qed

lemma upsert_unique:
  assumes "unique_terms P xs"
  shows "unique_terms P (upsert P p xs)"
proof -
  let ?key = "\<lambda>e. normalize_str P (begriff e)"
  let ?i = "findIndex (\<lambda>x. ?key x = ?key p) xs"
  show ?thesis
  proof (cases "0 \<le> ?i")
    case True
    from findIndex_found [OF True] have l: "nat ?i < length xs" and k: "?key (xs ! nat ?i) = ?key p"
      by blast+
    have "map ?key (xs[nat ?i := p]) = (map ?key xs)[nat ?i := ?key p]"
      by (rule map_update)
    also have "\<dots> = map ?key xs"
      using l k by (simp add: list_update_same_conv)
    finally show ?thesis
      using assms True by (simp add: unique_terms_def upsert_def Let_def)
  next
    case False
    then have "?i < 0" by simp
    then have "\<forall>x\<in>set xs. ?key x \<noteq> ?key p"
      by (simp add: findIndex_neg_iff)
    then have "?key p \<notin> set (map ?key xs)" by auto
    then show ?thesis
      using assms False by (simp add: unique_terms_def upsert_def Let_def)
  qed
qed

lemma upsert_last_write:
  "p \<in> set (upsert P p xs)
   \<and> (if \<exists>x\<in>set xs. normalize_str P (begriff x) = normalize_str P (begriff p)
       then length (upsert P p xs) = length xs else upsert P p xs = xs @ [p])"
proof -
  let ?key = "\<lambda>e. normalize_str P (begriff e)"
  let ?i = "findIndex (\<lambda>x. ?key x = ?key p) xs"
  show ?thesis
  proof (cases "0 \<le> ?i")
    case True
    from findIndex_found [OF True] have l: "nat ?i < length xs" by blast
    have ex: "\<exists>x\<in>set xs. ?key x = ?key p"
      using True findIndex_neg_iff [of "\<lambda>x. ?key x = ?key p" xs] by auto
    have "p \<in> set (xs[nat ?i := p])"
      using l by (rule set_update_memI)
    then show ?thesis using True ex by (simp add: upsert_def Let_def)
  next
    case False
    then have "?i < 0" by simp
    then have "\<not> (\<exists>x\<in>set xs. ?key x = ?key p)"
      by (simp add: findIndex_neg_iff)
    then show ?thesis using False by (simp add: upsert_def Let_def)
  qed
qed

lemma merge_row_upsert:
  "merge_row P p merged = (if trim P (begriff p) = [] then merged else upsert P p merged)"
  by (simp add: merge_row_def upsert_def)

lemma merge_row_unique: "unique_terms P xs \<Longrightarrow> unique_terms P (merge_row P p xs)"
  by (simp add: merge_row_upsert upsert_unique)

lemma import_merge_unique: "unique_terms P prev \<Longrightarrow> unique_terms P (import_merge P parsed prev)"
  unfolding import_merge_def
  by (induction parsed arbitrary: prev) (simp_all add: merge_row_unique)

lemma saveEditor_create:
  "editorMode ed = Create \<or> editorIndex ed = None \<Longrightarrow>
   saveEditor P ed prev =
     Some (if trim P (formBegriff ed) = [] then prev
           else upsert P \<lparr>begriff = trim P (formBegriff ed), definition_text = trim P (formDef ed),
                     beispiel = trim P (formBsp ed), quellen = formQ ed\<rparr> prev)"
  by (cases "editorMode ed"; cases "editorIndex ed") (auto simp: saveEditor_def upsert_def Let_def)

lemma saveEditor_create_unique:
  assumes "editorMode ed = Create \<or> editorIndex ed = None" and "unique_terms P prev"
    and "saveEditor P ed prev = Some new"
  shows "unique_terms P new"
  using assms(2,3) unfolding saveEditor_create [OF assms(1)]
  by (auto simp: upsert_unique split: if_splits)


lemma n_alg: "normalize_str ucd (js ''Algorithmus'') = js ''algorithmus''"
  by (simp add: normalize_ascii js_def lower_unit_def)
lemma n_alg2: "normalize_str ucd (js ''algorithmus'') = js ''algorithmus''"
  by (simp add: normalize_ascii js_def lower_unit_def)
lemma n_dat: "normalize_str ucd (js ''Datenbank'') = js ''datenbank''"
  by (simp add: normalize_ascii js_def lower_unit_def)
lemma trim_alg2: "trim ucd (js ''algorithmus'') = js ''algorithmus''"
  by (simp add: trim_ucd frag_trim_def js_def white_space_def)
lemma trim_Nil: "trim ucd [] = []"
  by (simp add: trim_ucd frag_trim_def)


lemma delete_selected_unique:
  assumes "unique_terms P prev" and "selected \<in> set prev"
  shows "delete_selected selected prev = removeEntry P (begriff selected) prev"
proof -
  let ?key = "\<lambda>e. normalize_str P (begriff e)"
  have inj: "inj_on ?key (set prev)"
    using assms(1) by (simp add: unique_terms_def distinct_map)
  have "(begriff e \<noteq> begriff selected) = (?key e \<noteq> ?key selected)" if "e \<in> set prev" for e
  proof
    assume "begriff e \<noteq> begriff selected"
    then have "e \<noteq> selected" by auto
    then show "?key e \<noteq> ?key selected"
      using inj that assms(2) by (auto dest: inj_onD)
  next
    assume "?key e \<noteq> ?key selected"
    then show "begriff e \<noteq> begriff selected" by auto
  qed
  then show ?thesis
    unfolding delete_selected_def removeEntry_def by (intro filter_cong) auto
qed


subsection \<open>More values of the fragment\<close>

lemma fi: "normalize_str ucd [0xFB01] = [0x66, 0x69]"
  by (simp add: frag_eval)
lemma fi_spec: "normalize_spec ucd (Some [0xFB01]) = [0xFB01]"
  by (simp add: normalize_spec_def frag_eval)
lemma circ: "normalize_str ucd [0x61, 0x5E] = [0x61]"
  by (simp add: frag_eval)
lemma circ_spec: "normalize_spec ucd (Some [0x61, 0x5E]) = [0x61, 0x5E]"
  by (simp add: normalize_spec_def frag_eval)
lemma arrow: "normalize_str ucd [0x61, 0x20D7] = [0x61, 0x20D7]"
  by (simp add: frag_eval)
lemma arrow_spec: "normalize_spec ucd (Some [0x61, 0x20D7]) = [0x61]"
  by (simp add: normalize_spec_def frag_eval)
lemma cafe_spec: "normalize_spec ucd (Some [0x43, 0x61, 0x66, 0xE9]) = [0x63, 0x61, 0x66, 0x65]"
  by (simp add: normalize_spec_def frag_eval)

lemma n_ber: "normalize_str ucd (js ''ber'') = js ''ber''"
  by (simp add: normalize_ascii js_def lower_unit_def)
lemma n_bericht: "normalize_str ucd (js ''Bericht'') = js ''bericht''"
  by (simp add: normalize_ascii js_def lower_unit_def)
lemma n_berater: "normalize_str ucd (js ''Berater'') = js ''berater''"
  by (simp add: normalize_ascii js_def lower_unit_def)
lemma n_kobern: "normalize_str ucd (js ''Kobern'') = js ''kobern''"
  by (simp add: normalize_ascii js_def lower_unit_def)
lemma n_zebra: "normalize_str ucd (js ''Zebra'') = js ''zebra''"
  by (simp add: normalize_ascii js_def lower_unit_def)
lemma n_circ: "normalize_str ucd [0x5E] = []"
  by (simp add: frag_eval)


section \<open>Theorems\<close>

text \<open>
  C9. If the query is empty after trimming, the search returns the entry sequence it
  was given, unchanged and in the same order, for every flag setting.
\<close>

theorem search_empty_query:
  "trim P query = [] \<Longrightarrow> search P query entries fuzzy fuzzyTol = entries"
  by (simp add: search_def)

theorem search_empty_query_witness:
  "search ucd (js ''  '') [term_entry (js ''Zebra''), term_entry (js ''Algorithmus'')] True 2
     = [term_entry (js ''Zebra''), term_entry (js ''Algorithmus'')]"
proof -
  have "trim ucd (js ''  '') = []"
    by (simp add: trim_ucd frag_trim_def js_def white_space_def)
  then show ?thesis by (rule search_empty_query)
qed

text \<open>
  C1. For a query that is not empty after trimming, if some entry's normalized term
  equals the normalized query, the search returns exactly the entries with that
  property, in their input order; the result does not depend on the fuzzy settings,
  and the substring and fuzzy tiers play no part in it.
\<close>

theorem search_exact_tier:
  assumes "trim P query \<noteq> []"
    and "\<exists>e\<in>set entries. normalize_str P (begriff e) = normalize_str P (trim P query)"
  shows "search P query entries fuzzy fuzzyTol =
           filter (\<lambda>e. normalize_str P (begriff e) = normalize_str P (trim P query)) entries
       \<and> search P query entries fuzzy fuzzyTol = search P query entries fuzzy' fuzzyTol'"
  using assms by (simp add: search_def Let_def filter_empty_conv)

theorem search_exact_tier_witness:
  "search ucd (js ''Algorithmus'')
     [term_entry (js ''Algorithmus''), term_entry (js ''Algorithmic''), term_entry (js ''Zebra'')]
     False 0
   = [term_entry (js ''Algorithmus'')]"
proof -
  let ?es = "[term_entry (js ''Algorithmus''), term_entry (js ''Algorithmic''), term_entry (js ''Zebra'')]"
  have t: "trim ucd (js ''Algorithmus'') = js ''Algorithmus''"
    by (simp add: trim_ucd frag_trim_def js_def white_space_def)
  have n1: "normalize_str ucd (js ''Algorithmus'') = js ''algorithmus''"
    by (simp add: normalize_ascii js_def lower_unit_def)
  have n2: "normalize_str ucd (js ''Algorithmic'') = js ''algorithmic''"
    by (simp add: normalize_ascii js_def lower_unit_def)
  have n3: "normalize_str ucd (js ''Zebra'') = js ''zebra''"
    by (simp add: normalize_ascii js_def lower_unit_def)
  have h1: "trim ucd (js ''Algorithmus'') \<noteq> []"
    unfolding t by simp
  have h2: "\<exists>e\<in>set ?es. normalize_str ucd (begriff e) = normalize_str ucd (trim ucd (js ''Algorithmus''))"
    unfolding t by (simp add: term_entry_def)
  have "search ucd (js ''Algorithmus'') ?es False 0 =
          filter (\<lambda>e. normalize_str ucd (begriff e) = normalize_str ucd (trim ucd (js ''Algorithmus''))) ?es"
    using search_exact_tier [OF h1 h2] by blast
  also have "\<dots> = [term_entry (js ''Algorithmus'')]"
    unfolding t by (simp add: term_entry_def n1 n2 n3)
  finally show ?thesis .
qed

text \<open>
  C6. \<open>levenshtein\<close> normalizes both arguments and fills a table of
  \<open>(len(a) + 1) \<times> (len(b) + 1)\<close> cells whose cell \<open>(i, j)\<close> is the recurrence of the
  unit-cost edit distance; its result is the edit distance of the two normalized
  strings, the least number of insertions, deletions and substitutions that turn
  one into the other. When one normalized string is empty the result is the length
  of the other. On the platform fragment, \<open>levenshtein("", "") = 0\<close>,
  \<open>levenshtein("", "abc") = 3\<close> and \<open>levenshtein("kitten", "sitting") = 3\<close>.
\<close>

theorem levenshtein_edit_distance:
  "levenshtein P a b = edit_distance (normalize_str P a) (normalize_str P b)
   \<and> edits (levenshtein P a b) (normalize_str P a) (normalize_str P b)
   \<and> (\<forall>k. edits k (normalize_str P a) (normalize_str P b) \<longrightarrow> levenshtein P a b \<le> k)
   \<and> shape (length x) (length y) (lev_table x y)
   \<and> (\<forall>i\<le>length x. \<forall>j\<le>length y. lev_table x y ! i ! j = lev_rec x y i j)
   \<and> (normalize_str P a = [] \<longrightarrow> levenshtein P a b = length (normalize_str P b))
   \<and> (normalize_str P b = [] \<longrightarrow> levenshtein P a b = length (normalize_str P a))
   \<and> levenshtein ucd (js '''') (js '''') = 0
   \<and> levenshtein ucd (js '''') (js ''abc'') = 3
   \<and> levenshtein ucd (js ''kitten'') (js ''sitting'') = 3"
proof -
  have d: "levenshtein P a b = edit_distance (normalize_str P a) (normalize_str P b)"
    by (simp add: levenshtein_def lev_dist_rec)
  have m: "edits (levenshtein P a b) (normalize_str P a) (normalize_str P b)
      \<and> (\<forall>k. edits k (normalize_str P a) (normalize_str P b) \<longrightarrow> levenshtein P a b \<le> k)"
    unfolding d by (rule edit_distance_minimal)
  have t: "shape (length x) (length y) (lev_table x y)
      \<and> (\<forall>i\<le>length x. \<forall>j\<le>length y. lev_table x y ! i ! j = lev_rec x y i j)"
    by (rule lev_table_spec)
  have e1: "normalize_str P a = [] \<longrightarrow> levenshtein P a b = length (normalize_str P b)"
    by (simp add: d edit_distance_Nil)
  have e2: "normalize_str P b = [] \<longrightarrow> levenshtein P a b = length (normalize_str P a)"
    by (simp add: d edit_distance_Nil)
  have n0: "normalize_str ucd (js '''') = []"
    by (simp add: normalize_ascii js_def)
  have n1: "normalize_str ucd (js ''abc'') = js ''abc''"
    by (simp add: normalize_ascii js_def lower_unit_def)
  have n2: "normalize_str ucd (js ''kitten'') = [0x6B, 0x69, 0x74, 0x74, 0x65, 0x6E]"
    by (simp add: normalize_ascii js_def lower_unit_def)
  have n3: "normalize_str ucd (js ''sitting'') = [0x73, 0x69, 0x74, 0x74, 0x69, 0x6E, 0x67]"
    by (simp add: normalize_ascii js_def lower_unit_def)
  have x1: "levenshtein ucd (js '''') (js '''') = 0"
    unfolding levenshtein_def n0 by (simp add: lev_dist_def)
  have x2: "levenshtein ucd (js '''') (js ''abc'') = 3"
    unfolding levenshtein_def n0 n1 by (simp add: lev_dist_def js_def)
  have x3: "levenshtein ucd (js ''kitten'') (js ''sitting'') = 3"
    unfolding levenshtein_def n2 n3
    by (simp add: lev_dist_def lev_table_def lev_cell_def set_cell_def Let_def)
  show ?thesis
    using d m t e1 e2 x1 x2 x3 by blast
qed

theorem levenshtein_edit_distance_witness:
  "normalize_str ucd (js '''') = []
   \<and> levenshtein ucd (js '''') (js ''abc'') = length (normalize_str ucd (js ''abc''))
   \<and> edits 3 (normalize_str ucd (js ''kitten'')) (normalize_str ucd (js ''sitting''))
   \<and> lev_table (js ''ab'') (js ''b'') ! 2 ! 1 = lev_rec (js ''ab'') (js ''b'') 2 1"
proof -
  have n0: "normalize_str ucd (js '''') = []"
    by (simp add: normalize_ascii js_def)
  have a: "levenshtein ucd (js '''') (js ''abc'') = length (normalize_str ucd (js ''abc''))"
    using levenshtein_edit_distance [of ucd "js ''''" "js ''abc''" "[] :: nat list" "[] :: nat list"] n0
    by blast
  have k1: "edits (levenshtein ucd (js ''kitten'') (js ''sitting''))
          (normalize_str ucd (js ''kitten'')) (normalize_str ucd (js ''sitting''))"
    and k2: "levenshtein ucd (js ''kitten'') (js ''sitting'') = 3"
    using levenshtein_edit_distance [of ucd "js ''kitten''" "js ''sitting''" "[] :: nat list" "[] :: nat list"]
    by blast+
  have b: "edits 3 (normalize_str ucd (js ''kitten'')) (normalize_str ucd (js ''sitting''))"
    using k1 unfolding k2 .
  have l: "(2::nat) \<le> length (js ''ab'')" "(1::nat) \<le> length (js ''b'')"
    by (simp_all add: js_def)
  have c: "lev_table (js ''ab'') (js ''b'') ! 2 ! 1 = lev_rec (js ''ab'') (js ''b'') 2 1"
    using levenshtein_edit_distance [of ucd "[]" "[]" "js ''ab''" "js ''b''"] l
    by blast
  show ?thesis using n0 a b c by blast
qed




text \<open>
  C2, as the specification states it: in the fuzzy tier the distance of an entry is
  the edit distance between the normalized query and the normalized term
  (\<open>fuzzy_spec\<close>). The source passes the normalized query to \<open>levenshtein\<close>, which
  normalizes it once more. For the query \<open>a\<close>, U+20D7, \<open>^\<close>, U+20D2, the term \<open>a\<close>,
  U+20D2, U+20D7 and tolerance 1 there is no exact and no substring match; the search
  returns the entry (distance 0 from the query normalized twice), the specification's
  tier returns nothing (distance 2 from the normalized query).
\<close>

theorem search_fuzzy_tier_counterexample:
  "trim ucd [0x61, 0x20D7, 0x5E, 0x20D2] \<noteq> []
   \<and> filter (\<lambda>e. normalize_str ucd (begriff e)
                   = normalize_str ucd (trim ucd [0x61, 0x20D7, 0x5E, 0x20D2]))
        [term_entry [0x61, 0x20D2, 0x20D7]] = []
   \<and> filter (\<lambda>e. includes_str (normalize_str ucd (begriff e))
                   (normalize_str ucd (trim ucd [0x61, 0x20D7, 0x5E, 0x20D2])))
        [term_entry [0x61, 0x20D2, 0x20D7]] = []
   \<and> search ucd [0x61, 0x20D7, 0x5E, 0x20D2] [term_entry [0x61, 0x20D2, 0x20D7]] True 1
       = [term_entry [0x61, 0x20D2, 0x20D7]]
   \<and> fuzzy_spec ucd [0x61, 0x20D7, 0x5E, 0x20D2] [term_entry [0x61, 0x20D2, 0x20D7]] 1 = []"
proof -
  have d0: "levenshtein ucd [0x61, 0x20D7, 0x20D2] [0x61, 0x20D2, 0x20D7] = 0"
    by (simp add: levenshtein_zero_iff q0_twice q0_fix)
  have d2: "edit_distance [0x61, 0x20D7, 0x20D2 :: codeunit] [0x61, 0x20D2, 0x20D7] = 2"
    by (simp add: lev_dist_rec [symmetric] lev_dist_def lev_table_def lev_cell_def set_cell_def Let_def)
  have a: "trim ucd [0x61, 0x20D7, 0x5E, 0x20D2] \<noteq> []"
    by (simp add: q0_trim)
  have b: "filter (\<lambda>e. normalize_str ucd (begriff e)
                   = normalize_str ucd (trim ucd [0x61, 0x20D7, 0x5E, 0x20D2]))
        [term_entry [0x61, 0x20D2, 0x20D7]] = []"
    by (simp add: q0_trim q0_once q0_fix term_entry_def)
  have c: "filter (\<lambda>e. includes_str (normalize_str ucd (begriff e))
                   (normalize_str ucd (trim ucd [0x61, 0x20D7, 0x5E, 0x20D2])))
        [term_entry [0x61, 0x20D2, 0x20D7]] = []"
    by (simp add: q0_trim q0_once q0_fix term_entry_def)
  have s: "search ucd [0x61, 0x20D7, 0x5E, 0x20D2] [term_entry [0x61, 0x20D2, 0x20D7]] True 1
       = [term_entry [0x61, 0x20D2, 0x20D7]]"
    unfolding search_def Let_def q0_trim q0_once
    by (simp add: q0_fix d0 term_entry_def)
  have f: "fuzzy_spec ucd [0x61, 0x20D7, 0x5E, 0x20D2] [term_entry [0x61, 0x20D2, 0x20D7]] 1 = []"
    unfolding fuzzy_spec_def Let_def q0_trim q0_once
    by (simp add: q0_fix d2 term_entry_def)
  show ?thesis using a b c s f by blast
qed

text \<open>
  C2, amended. For a query that is not empty after trimming, with the fuzzy tier
  enabled and no exact and no substring match, the search returns exactly the entries
  whose distance \<open>levenshtein(nq, term)\<close> is at most the tolerance, in ascending order
  of that distance, entries of equal distance in their input order. That distance is
  the edit distance between the normalized form of the normalized query (the query is
  normalized by the search and again by \<open>levenshtein\<close>) and the normalized term. When
  normalizing the normalized query changes nothing, this is the tier the
  specification describes.
\<close>

theorem search_fuzzy_tier:
  assumes "trim P query \<noteq> []" and "fuzzy"
    and "\<forall>e\<in>set entries. normalize_str P (begriff e) \<noteq> normalize_str P (trim P query)"
    and "\<forall>e\<in>set entries.
           \<not> includes_str (normalize_str P (begriff e)) (normalize_str P (trim P query))"
  shows "search P query entries fuzzy fuzzyTol
           = sort_key (fuzzy_distance P query)
               (filter (\<lambda>e. int (fuzzy_distance P query e) \<le> fuzzyTol) entries)
       \<and> sorted (map (fuzzy_distance P query) (search P query entries fuzzy fuzzyTol))
       \<and> (\<forall>k. filter (\<lambda>e. fuzzy_distance P query e = k) (search P query entries fuzzy fuzzyTol)
              = filter (\<lambda>e. int (fuzzy_distance P query e) \<le> fuzzyTol \<and> fuzzy_distance P query e = k)
                  entries)
       \<and> (\<forall>e. fuzzy_distance P query e
              = edit_distance (normalize_str P (normalize_str P (trim P query)))
                  (normalize_str P (begriff e)))
       \<and> (normalize_str P (normalize_str P (trim P query)) = normalize_str P (trim P query)
            \<longrightarrow> search P query entries fuzzy fuzzyTol = fuzzy_spec P query entries fuzzyTol)"
proof -
  let ?nq = "normalize_str P (trim P query)"
  let ?d = "fuzzy_distance P query"
  let ?r = "sort_key ?d (filter (\<lambda>e. int (?d e) \<le> fuzzyTol) entries)"
  have e: "filter (\<lambda>e. normalize_str P (begriff e) = ?nq) entries = []"
    using assms(3) by (simp add: filter_empty_conv)
  have s: "filter (\<lambda>e. includes_str (normalize_str P (begriff e)) ?nq) entries = []"
    using assms(4) by (simp add: filter_empty_conv)
  have "search P query entries fuzzy fuzzyTol =
     map fst (sort_key snd (filter (\<lambda>x. int (snd x) \<le> fuzzyTol)
        (map (\<lambda>e. (e, levenshtein P ?nq (begriff e))) entries)))"
    using assms(1,2) e s by (simp add: search_def Let_def)
  also have "\<dots> = sort_key (\<lambda>e. levenshtein P ?nq (begriff e))
             (filter (\<lambda>e. int (levenshtein P ?nq (begriff e)) \<le> fuzzyTol) entries)"
    by (rule sort_pairs [where p = "\<lambda>k. int k \<le> fuzzyTol"])
  also have "\<dots> = ?r"
    by (simp add: fuzzy_distance_def [abs_def])
  finally have r: "search P query entries fuzzy fuzzyTol = ?r" .
  have so: "sorted (map ?d ?r)"
    by (rule sorted_sort_key)
  have st: "filter (\<lambda>e. ?d e = k) ?r
      = filter (\<lambda>e. int (?d e) \<le> fuzzyTol \<and> ?d e = k) entries" for k
    by (simp add: sort_key_stable conj_commute)
  have di: "?d e = edit_distance (normalize_str P ?nq) (normalize_str P (begriff e))" for e
    by (simp add: fuzzy_distance_def levenshtein_def lev_dist_rec)
  have sp: "?r = fuzzy_spec P query entries fuzzyTol" if "normalize_str P ?nq = ?nq"
  proof -
    have "?d = (\<lambda>e. edit_distance ?nq (normalize_str P (begriff e)))"
      using di that by (simp add: fun_eq_iff)
    then show ?thesis by (simp add: fuzzy_spec_def Let_def)
  qed
  show ?thesis
    unfolding r using so st di sp by blast
qed

theorem search_fuzzy_tier_witness:
  "search ucd (js ''Zbra'')
     [term_entry (js ''Kobra''), term_entry (js ''Ibis''), term_entry (js ''Zebra'')] True 2
     = [term_entry (js ''Zebra''), term_entry (js ''Kobra'')]
   \<and> fuzzy_distance ucd (js ''Zbra'') (term_entry (js ''Zebra'')) = 1"
proof -
  let ?q = "js ''Zbra''"
  let ?es = "[term_entry (js ''Kobra''), term_entry (js ''Ibis''), term_entry (js ''Zebra'')]"
  have t: "trim ucd ?q = ?q"
    by (simp add: trim_ucd frag_trim_def js_def white_space_def)
  have nq: "normalize_str ucd ?q = js ''zbra''"
    by (simp add: normalize_ascii js_def lower_unit_def)
  have nq2: "normalize_str ucd (js ''zbra'') = js ''zbra''"
    by (simp add: normalize_ascii js_def lower_unit_def)
  have n1: "normalize_str ucd (js ''Kobra'') = js ''kobra''"
    by (simp add: normalize_ascii js_def lower_unit_def)
  have n2: "normalize_str ucd (js ''Ibis'') = js ''ibis''"
    by (simp add: normalize_ascii js_def lower_unit_def)
  have n3: "normalize_str ucd (js ''Zebra'') = js ''zebra''"
    by (simp add: normalize_ascii js_def lower_unit_def)
  have d1: "fuzzy_distance ucd ?q (term_entry (js ''Kobra'')) = 2"
    unfolding fuzzy_distance_def levenshtein_def t nq nq2 begriff_term_entry n1
    by (simp add: js_def lev_dist_def lev_table_def lev_cell_def set_cell_def Let_def)
  have d2: "fuzzy_distance ucd ?q (term_entry (js ''Ibis'')) = 3"
    unfolding fuzzy_distance_def levenshtein_def t nq nq2 begriff_term_entry n2
    by (simp add: js_def lev_dist_def lev_table_def lev_cell_def set_cell_def Let_def)
  have d3: "fuzzy_distance ucd ?q (term_entry (js ''Zebra'')) = 1"
    unfolding fuzzy_distance_def levenshtein_def t nq nq2 begriff_term_entry n3
    by (simp add: js_def lev_dist_def lev_table_def lev_cell_def set_cell_def Let_def)
  have h1: "trim ucd ?q \<noteq> []"
    unfolding t by simp
  have h3: "\<forall>e\<in>set ?es. normalize_str ucd (begriff e) \<noteq> normalize_str ucd (trim ucd ?q)"
    unfolding t nq by (simp add: term_entry_def n1 n2 n3)
  have h4: "\<forall>e\<in>set ?es. \<not> includes_str (normalize_str ucd (begriff e)) (normalize_str ucd (trim ucd ?q))"
    unfolding t nq by (simp add: term_entry_def n1 n2 n3) (simp add: js_def)
  have "search ucd ?q ?es True 2
      = sort_key (fuzzy_distance ucd ?q) (filter (\<lambda>e. int (fuzzy_distance ucd ?q e) \<le> 2) ?es)"
    using search_fuzzy_tier [OF h1 TrueI h3 h4, of 2] by blast
  also have "\<dots> = [term_entry (js ''Zebra''), term_entry (js ''Kobra'')]"
    by (simp add: d1 d2 d3)
  finally show ?thesis using d3 by blast
qed


text \<open>
  C4. The create branch of \<open>saveEditor\<close> and the import merge keep the canonical
  terms distinct (\<open>saveEditor_create_unique\<close>, \<open>import_merge_unique\<close>) and replace
  the record with the same canonical term (\<open>upsert_last_write\<close>). The edit branch
  writes the record at \<open>editorIndex\<close> without looking at the other entries: from the
  collection Algorithmus, Datenbank, editing the second entry and renaming it
  algorithmus gives two entries with the canonical term algorithmus.
\<close>

theorem saveEditor_edit_duplicates:
  "unique_terms ucd [term_entry (js ''Algorithmus''), term_entry (js ''Datenbank'')]
   \<and> saveEditor ucd
        \<lparr>editorMode = Edit, editorIndex = Some 1, formBegriff = js ''algorithmus'',
         formDef = [], formBsp = [], formQ = []\<rparr>
        [term_entry (js ''Algorithmus''), term_entry (js ''Datenbank'')]
       = Some [term_entry (js ''Algorithmus''), term_entry (js ''algorithmus'')]
   \<and> \<not> unique_terms ucd [term_entry (js ''Algorithmus''), term_entry (js ''algorithmus'')]"
proof -
  have a: "unique_terms ucd [term_entry (js ''Algorithmus''), term_entry (js ''Datenbank'')]"
    by (simp add: unique_terms_def begriff_term_entry n_alg n_dat)
  have b: "saveEditor ucd
        \<lparr>editorMode = Edit, editorIndex = Some 1, formBegriff = js ''algorithmus'',
         formDef = [], formBsp = [], formQ = []\<rparr>
        [term_entry (js ''Algorithmus''), term_entry (js ''Datenbank'')]
       = Some [term_entry (js ''Algorithmus''), term_entry (js ''algorithmus'')]"
    by (simp add: saveEditor_def trim_alg2 trim_Nil array_store_def term_entry_def)
  have c: "\<not> unique_terms ucd [term_entry (js ''Algorithmus''), term_entry (js ''algorithmus'')]"
    by (simp add: unique_terms_def begriff_term_entry n_alg n_alg2)
  show ?thesis using a b c by blast
qed

text \<open>
  C7, as the specification states it: deleting removes every entry whose canonical
  term is that of the deleted term. In App.tsx the detail dialog compares the terms
  themselves: from the collection Zebra, zebra, deleting the selected entry Zebra
  leaves zebra, whose canonical term is the same.
\<close>

theorem deletion_counterexample:
  "delete_selected (term_entry (js ''Zebra'')) [term_entry (js ''Zebra''), term_entry (js ''zebra'')]
     = [term_entry (js ''zebra'')]
   \<and> filter (\<lambda>e. normalize_str ucd (begriff e) \<noteq> normalize_str ucd (begriff (term_entry (js ''Zebra''))))
        [term_entry (js ''Zebra''), term_entry (js ''zebra'')] = []"
proof -
  have "normalize_str ucd (js ''Zebra'') = js ''zebra''" "normalize_str ucd (js ''zebra'') = js ''zebra''"
    by (simp_all add: normalize_ascii js_def lower_unit_def)
  then show ?thesis
    by (simp add: delete_selected_def begriff_term_entry)
qed

text \<open>
  C7, amended. \<open>removeEntry\<close> of the first version removes exactly the entries whose
  canonical term equals the canonical form of the given term, and keeps the others in
  their order. The delete button of App.tsx removes exactly the entries whose term is
  the same string as the selected entry's term, and keeps the others in their order;
  the two agree when no two entries of the collection have the same canonical term
  and the selected entry is in the collection.
\<close>

theorem deletion_amended:
  "removeEntry P t prev = filter (\<lambda>e. normalize_str P (begriff e) \<noteq> normalize_str P t) prev
   \<and> delete_selected selected prev = filter (\<lambda>e. begriff e \<noteq> begriff selected) prev
   \<and> (unique_terms P prev \<and> selected \<in> set prev
        \<longrightarrow> delete_selected selected prev = removeEntry P (begriff selected) prev)"
  using delete_selected_unique [of P prev selected]
  by (simp add: removeEntry_def delete_selected_def)

theorem deletion_amended_witness:
  "delete_selected (term_entry (js ''Zebra'')) [term_entry (js ''Algorithmus''), term_entry (js ''Zebra'')]
     = removeEntry ucd (js ''Zebra'') [term_entry (js ''Algorithmus''), term_entry (js ''Zebra'')]"
proof -
  let ?es = "[term_entry (js ''Algorithmus''), term_entry (js ''Zebra'')]"
  have n: "normalize_str ucd (js ''Zebra'') = js ''zebra''"
    by (simp add: normalize_ascii js_def lower_unit_def)
  have u: "unique_terms ucd ?es"
    by (simp add: unique_terms_def begriff_term_entry n_alg n)
  have m: "term_entry (js ''Zebra'') \<in> set ?es" by simp
  have "delete_selected (term_entry (js ''Zebra'')) ?es
      = removeEntry ucd (begriff (term_entry (js ''Zebra''))) ?es"
    using deletion_amended [of ucd "js ''Zebra''" ?es "term_entry (js ''Zebra'')"] u m
    by blast
  then show ?thesis unfolding begriff_term_entry .
qed


text \<open>
  C3, as the specification states it: \<open>normalize\<close> is canonical decomposition, removal
  of every combining mark, lower-casing (\<open>normalize_spec\<close>). The source calls
  \<open>normalize("NFKD")\<close>, the compatibility decomposition, and removes the code points
  with the property Diacritic. The two differ on \<open>a^\<close> (the circumflex accent is
  Diacritic and not a combining mark: the source gives \<open>a\<close>, the specification
  \<open>a^\<close>), on the ligature U+FB01 (compatibility decomposition gives \<open>fi\<close>, canonical
  decomposition leaves it) and on \<open>a\<close>, U+20D7 (a combining mark without the property
  Diacritic: the source keeps it).
\<close>

theorem normalize_spec_counterexample:
  "normalize_nullable ucd (Some [0x61, 0x5E]) \<noteq> normalize_spec ucd (Some [0x61, 0x5E])
   \<and> normalize_nullable ucd (Some [0xFB01]) \<noteq> normalize_spec ucd (Some [0xFB01])
   \<and> normalize_nullable ucd (Some [0x61, 0x20D7]) \<noteq> normalize_spec ucd (Some [0x61, 0x20D7])"
  by (simp add: normalize_nullable_def fi fi_spec circ circ_spec arrow arrow_spec)

text \<open>
  C3, amended. \<open>normalize\<close> treats \<open>null\<close> and \<open>undefined\<close> as the empty string,
  whose normalized form is empty whenever NFKD and lower-casing of the empty string
  are empty; otherwise it applies the compatibility decomposition NFKD, removes the
  code points that have the property Diacritic (on a string without surrogates:
  exactly the code units with the property, the others staying in their order), and
  lower-cases the result. It has no failing branch.
\<close>

theorem normalize_amended:
  "normalize_nullable P None = normalize_nullable P (Some [])
   \<and> normalize_nullable P (Some s) = toLowerCase P (replace_all_u (Diacritic P) (nfkd P s))
   \<and> (nfkd P [] = [] \<and> toLowerCase P [] = [] \<longrightarrow> normalize_nullable P None = [])
   \<and> ((\<forall>c\<in>set u. \<not> is_high c) \<longrightarrow>
         replace_all_u (Diacritic P) u = filter (\<lambda>c. \<not> Diacritic P (unat c)) u)
   \<and> normalize_nullable ucd None = []"
proof -
  have a: "normalize_nullable P None = normalize_nullable P (Some [])"
    by (simp add: normalize_nullable_def)
  have b: "normalize_nullable P (Some s) = toLowerCase P (replace_all_u (Diacritic P) (nfkd P s))"
    by (simp add: normalize_nullable_def normalize_str_def)
  have c: "nfkd P [] = [] \<and> toLowerCase P [] = [] \<longrightarrow> normalize_nullable P None = []"
    by (simp add: normalize_nullable_def normalize_str_def replace_all_u_def)
  have d: "(\<forall>c\<in>set u. \<not> is_high c) \<longrightarrow>
         replace_all_u (Diacritic P) u = filter (\<lambda>c. \<not> Diacritic P (unat c)) u"
    by (simp add: replace_all_u_bmp)
  have e: "normalize_nullable ucd None = []"
    by (simp add: normalize_nullable_def normalize_ascii)
  show ?thesis using a b c d e by blast
qed

theorem normalize_amended_witness:
  "normalize_nullable ucd None = []
   \<and> replace_all_u (Diacritic ucd) [0x61, 0x5E, 0x62] = [0x61, 0x62]"
proof -
  have h1: "nfkd ucd [] = [] \<and> toLowerCase ucd [] = []"
    by (simp add: ucd_def frag_nfkd_def canonical_order_def)
  have h2: "\<forall>c\<in>set [0x61, 0x5E, 0x62 :: codeunit]. \<not> is_high c"
    by (simp add: is_high_def)
  have "normalize_nullable ucd None = []"
    and "replace_all_u (Diacritic ucd) [0x61, 0x5E, 0x62]
          = filter (\<lambda>c. \<not> Diacritic ucd (unat c)) [0x61, 0x5E, 0x62]"
    using normalize_amended [of ucd "[]" "[0x61, 0x5E, 0x62]"] h1 h2 by blast+
  then show ?thesis by (simp add: ucd_def frag_Diacritic_def)
qed

text \<open>
  C8, as the specification states it: the ranking applies to every query, and only
  the empty query gives no suggestion. The source tests the normalized query: the
  query \<open>^\<close> is not empty, its normalized form is, and there is no suggestion, where
  the ranking gives the first eight entries (every term starts with the empty
  string).
\<close>

theorem suggestions_counterexample:
  "[0x5E] \<noteq> ([] :: jsstring)
   \<and> suggestions ucd [0x5E] [term_entry (js ''Zebra'')] = []
   \<and> suggest_ranking ucd [0x5E] [term_entry (js ''Zebra'')] = [term_entry (js ''Zebra'')]"
  by (simp add: suggestions_def suggest_ranking_def n_circ)

text \<open>
  C8, amended. When the normalized query is not empty, the suggestions are the
  entries whose normalized term starts with it, in input order, followed by the
  entries whose normalized term contains it without starting with it, in input
  order, cut to the first 8. When the normalized query is empty, as for the empty
  query, there is no suggestion.
\<close>

theorem suggestions_amended:
  "(normalize_str P query \<noteq> [] \<longrightarrow>
      suggestions P query entries =
        take 8 (filter (\<lambda>e. prefix (normalize_str P query) (normalize_str P (begriff e))) entries
              @ filter (\<lambda>e. \<not> prefix (normalize_str P query) (normalize_str P (begriff e))
                          \<and> (\<exists>u v. normalize_str P (begriff e) = u @ normalize_str P query @ v))
                  entries))
   \<and> (normalize_str P query \<noteq> [] \<longrightarrow> suggestions P query entries = suggest_ranking P query entries)
   \<and> (normalize_str P query = [] \<longrightarrow> suggestions P query entries = [])
   \<and> length (suggestions P query entries) \<le> 8
   \<and> suggestions ucd [] entries = []"
proof -
  have a: "normalize_str P query \<noteq> [] \<longrightarrow> suggestions P query entries = suggest_ranking P query entries"
    by (simp add: suggestions_def suggest_ranking_def Let_def)
  have b: "normalize_str P query \<noteq> [] \<longrightarrow>
      suggestions P query entries =
        take 8 (filter (\<lambda>e. prefix (normalize_str P query) (normalize_str P (begriff e))) entries
              @ filter (\<lambda>e. \<not> prefix (normalize_str P query) (normalize_str P (begriff e))
                          \<and> (\<exists>u v. normalize_str P (begriff e) = u @ normalize_str P query @ v))
                  entries)"
    by (simp add: suggestions_def Let_def includes_str_iff del: take_append)
  have c: "normalize_str P query = [] \<longrightarrow> suggestions P query entries = []"
    by (simp add: suggestions_def)
  have d: "length (suggestions P query entries) \<le> 8"
    by (simp add: suggestions_def Let_def del: take_append)
  have e: "suggestions ucd [] entries = []"
    by (simp add: suggestions_def normalize_ascii)
  show ?thesis using a b c d e by blast
qed

theorem suggestions_amended_witness:
  "suggestions ucd (js ''ber'')
     [term_entry (js ''Bericht''), term_entry (js ''Kobern''), term_entry (js ''Zebra''),
      term_entry (js ''Berater'')]
   = [term_entry (js ''Bericht''), term_entry (js ''Berater''), term_entry (js ''Kobern'')]
   \<and> suggestions ucd [0x5E] [term_entry (js ''Zebra'')] = []"
proof -
  let ?es = "[term_entry (js ''Bericht''), term_entry (js ''Kobern''), term_entry (js ''Zebra''),
      term_entry (js ''Berater'')]"
  have h: "normalize_str ucd (js ''ber'') \<noteq> []"
    by (simp add: n_ber)
  have "suggestions ucd (js ''ber'') ?es = suggest_ranking ucd (js ''ber'') ?es"
    using suggestions_amended [of ucd "js ''ber''" ?es] h by blast
  also have "\<dots> = [term_entry (js ''Bericht''), term_entry (js ''Berater''), term_entry (js ''Kobern'')]"
    unfolding suggest_ranking_def Let_def n_ber
    by (simp add: begriff_term_entry n_bericht n_berater n_kobern n_zebra) (simp add: js_def)
  finally have a: "suggestions ucd (js ''ber'') ?es
      = [term_entry (js ''Bericht''), term_entry (js ''Berater''), term_entry (js ''Kobern'')]" .
  have b: "suggestions ucd [0x5E] [term_entry (js ''Zebra'')] = []"
    using suggestions_amended [of ucd "[0x5E]" "[term_entry (js ''Zebra'')]"] n_circ by blast
  show ?thesis using a b by blast
qed


end
